theory Spec2Isabelle
  imports Main
begin

section \<open>Characters of the text\<close>

text \<open>
  A Python \<open>str\<close> is a sequence of code points. The model takes texts over the code points
  below 256, a \<^typ>\<open>string\<close>, and gives the three character categories the patterns of
  \<open>sanitize_text\<close> use the value Python's \<open>re\<close> gives them on these code points:
  \<open>\d\<close> (decimal digits), \<open>\s\<close> (whitespace) and \<open>\w\<close> (word characters: alphanumerics
  and the underscore, which decide the word boundary \<open>\b\<close>).
\<close>

definition code :: "char \<Rightarrow> nat" where
  "code c = of_char c"

definition is_digit :: "char \<Rightarrow> bool" where
  "is_digit c \<longleftrightarrow> 48 \<le> code c \<and> code c \<le> 57"

definition is_space :: "char \<Rightarrow> bool" where
  "is_space c \<longleftrightarrow> (9 \<le> code c \<and> code c \<le> 13) \<or> (28 \<le> code c \<and> code c \<le> 32)
     \<or> code c = 133 \<or> code c = 160"

definition is_upper :: "char \<Rightarrow> bool" where
  "is_upper c \<longleftrightarrow> 65 \<le> code c \<and> code c \<le> 90"

definition is_lower :: "char \<Rightarrow> bool" where
  "is_lower c \<longleftrightarrow> 97 \<le> code c \<and> code c \<le> 122"

definition is_word :: "char \<Rightarrow> bool" where
  "is_word c \<longleftrightarrow> is_digit c \<or> is_upper c \<or> is_lower c \<or> code c = 95
     \<or> code c = 170 \<or> code c = 178 \<or> code c = 179 \<or> code c = 181 \<or> code c = 185
     \<or> code c = 186 \<or> code c = 188 \<or> code c = 189 \<or> code c = 190
     \<or> (192 \<le> code c \<and> code c \<le> 214) \<or> (216 \<le> code c \<and> code c \<le> 246)
     \<or> 248 \<le> code c"

definition one_of :: "string \<Rightarrow> char \<Rightarrow> bool" where
  "one_of cs c \<longleftrightarrow> c \<in> set cs"

section \<open>Patterns and the backtracking matcher\<close>

text \<open>
  The fragment of the pattern language the four patterns are written in: one character of
  a class, the word boundary \<open>\b\<close>, concatenation, the repetition of a character class
  (greedy, or lazy as in \<open>*?\<close>; at least \<open>lo\<close> and, when given, at most \<open>hi\<close> times), and the
  greedy bounded repetition of a group.
\<close>

datatype rx =
    Eps
  | Atom "char \<Rightarrow> bool"
  | Bound
  | Cat rx rx
  | Many bool nat "nat option" "char \<Rightarrow> bool"
  | Times nat nat rx

text \<open>
  A position in the text is the character before it (\<open>None\<close> at the start of the text) and
  the text that remains.
\<close>

type_synonym pos = "char option \<times> string"

definition word_before :: "char option \<Rightarrow> bool" where
  "word_before p = (case p of None \<Rightarrow> False | Some c \<Rightarrow> is_word c)"

definition word_after :: "string \<Rightarrow> bool" where
  "word_after s = (case s of [] \<Rightarrow> False | c # _ \<Rightarrow> is_word c)"

definition boundary :: "pos \<Rightarrow> bool" where
  "boundary st \<longleftrightarrow> word_before (fst st) \<noteq> word_after (snd st)"

text \<open>
  The matcher returns the positions at which a match of the pattern that starts at the
  given position can end, in the order in which the backtracking engine tries them: the
  head of the list is the match the engine reports.
\<close>

fun many :: "bool \<Rightarrow> (char \<Rightarrow> bool) \<Rightarrow> nat \<Rightarrow> nat option \<Rightarrow> pos \<Rightarrow> pos list" where
  "many g P lo hi (p, []) = (if lo = 0 then [(p, [])] else [])"
| "many g P lo hi (p, c # cs) =
     (let stop = (if lo = 0 then [(p, c # cs)] else []);
          more = (if P c \<and> hi \<noteq> Some 0
                  then many g P (lo - 1) (map_option (\<lambda>h. h - 1) hi) (Some c, cs)
                  else [])
      in if g then more @ stop else stop @ more)"

primrec times :: "(pos \<Rightarrow> pos list) \<Rightarrow> nat \<Rightarrow> nat \<Rightarrow> pos \<Rightarrow> pos list" where
  "times f lo 0 st = [st]"
| "times f lo (Suc h) st =
     concat (map (times f (lo - 1) h) (f st)) @ (if lo = 0 then [st] else [])"

primrec ends :: "rx \<Rightarrow> pos \<Rightarrow> pos list" where
  "ends Eps st = [st]"
| "ends (Atom P) st =
     (case snd st of [] \<Rightarrow> [] | c # cs \<Rightarrow> if P c then [(Some c, cs)] else [])"
| "ends Bound st = (if boundary st then [st] else [])"
| "ends (Cat a b) st = concat (map (ends b) (ends a st))"
| "ends (Many g lo hi P) st = many g P lo hi st"
| "ends (Times lo hi r) st = times (ends r) lo hi st"

definition seq :: "rx list \<Rightarrow> rx" where
  "seq rs = foldr Cat rs Eps"

section \<open>The substitution \<open>re.sub\<close>\<close>

datatype error = TemplateError | ValidationError

text \<open>
  One scan of \<open>re.sub\<close> over the text cuts it into the characters it keeps and the spans
  it replaces. After a match the search goes on where the match ended; after an empty
  match the next match at the same place must not be empty (\<open>adv\<close>).
\<close>

datatype piece = Keep char | Hit string

definition first_end :: "bool \<Rightarrow> string \<Rightarrow> pos list \<Rightarrow> pos option" where
  "first_end adv s sts =
     find (\<lambda>st. if adv then length (snd st) < length s else True) sts"

function scan :: "rx \<Rightarrow> bool \<Rightarrow> char option \<Rightarrow> string \<Rightarrow> piece list" where
  "scan r adv p s =
     (case first_end adv s (ends r (p, s)) of
        Some (p', s') \<Rightarrow>
          if length s' < length s
          then Hit (take (length s - length s') s) # scan r False p' s'
          else if adv
          then (case s of [] \<Rightarrow> [] | c # cs \<Rightarrow> Keep c # scan r False (Some c) cs)
          else Hit [] # scan r True p s
      | None \<Rightarrow> (case s of [] \<Rightarrow> [] | c # cs \<Rightarrow> Keep c # scan r False (Some c) cs))"
  by pat_completeness auto
termination
  by (relation "measure (\<lambda>(r, adv, p, s). 2 * length s + (if adv then 0 else 1))") auto

declare scan.simps [simp del]

text \<open>
  The replacement string is a template: a backslash starts an escape. The patterns of
  \<open>sanitize_text\<close> have no capturing group, so the only group a template can refer to is
  group 0, the whole match, written \<open>\g<0>\<close>; any other reference, a backslash before a
  letter that is no escape, and a backslash at the end of the string raise an exception when
  \<open>re.sub\<close> compiles the template, before it looks at the text. (Group numbers are read as
  CPython 3.12 reads them, as ASCII decimal digits.)
\<close>

datatype token = Ch char | Esc char

fun tokenize :: "string \<Rightarrow> error + token list" where
  "tokenize [] = Inr []"
| "tokenize (c # cs) =
     (if c = CHR 0x5C
      then (case cs of
              [] \<Rightarrow> Inl TemplateError
            | d # ds \<Rightarrow> (case tokenize ds of Inl e \<Rightarrow> Inl e | Inr ts \<Rightarrow> Inr (Esc d # ts)))
      else (case tokenize cs of Inl e \<Rightarrow> Inl e | Inr ts \<Rightarrow> Inr (Ch c # ts)))"

datatype item = Lit char | Group0

definition is_octdigit :: "char \<Rightarrow> bool" where
  "is_octdigit c \<longleftrightarrow> 48 \<le> code c \<and> code c \<le> 55"

definition is_ascii_letter :: "char \<Rightarrow> bool" where
  "is_ascii_letter c \<longleftrightarrow> is_upper c \<or> is_lower c"

definition oct :: "char \<Rightarrow> nat" where
  "oct c = code c - 48"

definition chr :: "nat \<Rightarrow> char" where
  "chr n = char_of n"

fun escape :: "char \<Rightarrow> char option" where
  "escape c =
     (if c = CHR ''a'' then Some (chr 7)
      else if c = CHR ''b'' then Some (chr 8)
      else if c = CHR ''f'' then Some (chr 12)
      else if c = CHR ''n'' then Some (chr 10)
      else if c = CHR ''r'' then Some (chr 13)
      else if c = CHR ''t'' then Some (chr 9)
      else if c = CHR ''v'' then Some (chr 11)
      else if c = CHR 0x5C then Some (CHR 0x5C)
      else None)"

text \<open>
  \<open>group_name ts\<close> reads the tokens of a group name up to the closing \<open>>\<close> and returns what
  follows it, when the name is a nonempty string of zeros (the number of group 0).
\<close>

fun group_name :: "bool \<Rightarrow> token list \<Rightarrow> token list option" where
  "group_name seen [] = None"
| "group_name seen (Ch c # ts) =
     (if c = CHR ''>'' then (if seen then Some ts else None)
      else if c = CHR ''0'' then group_name True ts
      else None)"
| "group_name seen (Esc c # ts) = None"

function parse_tokens :: "token list \<Rightarrow> error + item list" where
  "parse_tokens [] = Inr []"
| "parse_tokens (Ch c # ts) =
     (case parse_tokens ts of Inl e \<Rightarrow> Inl e | Inr is \<Rightarrow> Inr (Lit c # is))"
| "parse_tokens (Esc c # ts) =
     (if c = CHR ''g'' then
        (case ts of
           Ch l # ts' \<Rightarrow>
             if l = CHR ''<'' then
               (case group_name False ts' of
                  None \<Rightarrow> Inl TemplateError
                | Some rest \<Rightarrow>
                    if length rest < length ts
                    then (case parse_tokens rest of
                            Inl e \<Rightarrow> Inl e | Inr is \<Rightarrow> Inr (Group0 # is))
                    else Inl TemplateError)
             else Inl TemplateError
         | _ \<Rightarrow> Inl TemplateError)
      else if c = CHR ''0'' then
        (case ts of
           Ch d1 # Ch d2 # ts' \<Rightarrow>
             if is_octdigit d1 \<and> is_octdigit d2
             then (case parse_tokens ts' of
                     Inl e \<Rightarrow> Inl e
                   | Inr is \<Rightarrow> Inr (Lit (chr ((oct d1 * 8 + oct d2) mod 256)) # is))
             else if is_octdigit d1
             then (case parse_tokens (Ch d2 # ts') of
                     Inl e \<Rightarrow> Inl e | Inr is \<Rightarrow> Inr (Lit (chr (oct d1)) # is))
             else (case parse_tokens ts of
                     Inl e \<Rightarrow> Inl e | Inr is \<Rightarrow> Inr (Lit (chr 0) # is))
         | Ch d1 # ts' \<Rightarrow>
             if is_octdigit d1
             then (case parse_tokens ts' of
                     Inl e \<Rightarrow> Inl e | Inr is \<Rightarrow> Inr (Lit (chr (oct d1)) # is))
             else (case parse_tokens ts of
                     Inl e \<Rightarrow> Inl e | Inr is \<Rightarrow> Inr (Lit (chr 0) # is))
         | _ \<Rightarrow> (case parse_tokens ts of
                   Inl e \<Rightarrow> Inl e | Inr is \<Rightarrow> Inr (Lit (chr 0) # is)))
      else if is_digit c then
        (case ts of
           Ch d1 # Ch d2 # ts' \<Rightarrow>
             if is_octdigit c \<and> is_octdigit d1 \<and> is_octdigit d2
                \<and> oct c * 64 + oct d1 * 8 + oct d2 \<le> 255
             then (case parse_tokens ts' of
                     Inl e \<Rightarrow> Inl e
                   | Inr is \<Rightarrow> Inr (Lit (chr (oct c * 64 + oct d1 * 8 + oct d2)) # is))
             else Inl TemplateError
         | _ \<Rightarrow> Inl TemplateError)
      else
        (case escape c of
           Some e \<Rightarrow>
             (case parse_tokens ts of Inl e' \<Rightarrow> Inl e' | Inr is \<Rightarrow> Inr (Lit e # is))
         | None \<Rightarrow>
             if is_ascii_letter c then Inl TemplateError
             else (case parse_tokens ts of
                     Inl e' \<Rightarrow> Inl e' | Inr is \<Rightarrow> Inr (Lit (CHR 0x5C) # Lit c # is))))"
  by pat_completeness auto
termination
  by (relation "measure length") auto

definition parse_template :: "string \<Rightarrow> error + item list" where
  "parse_template repl =
     (case tokenize repl of Inl e \<Rightarrow> Inl e | Inr ts \<Rightarrow> parse_tokens ts)"

fun expand_item :: "string \<Rightarrow> item \<Rightarrow> string" where
  "expand_item m (Lit c) = [c]"
| "expand_item m Group0 = m"

definition expand_template :: "item list \<Rightarrow> string \<Rightarrow> string" where
  "expand_template tmpl m = concat (map (expand_item m) tmpl)"

fun render :: "item list \<Rightarrow> piece \<Rightarrow> string" where
  "render tmpl (Keep c) = [c]"
| "render tmpl (Hit m) = expand_template tmpl m"

definition sub :: "rx \<Rightarrow> string \<Rightarrow> string \<Rightarrow> error + string" where
  "sub r repl text =
     (case parse_template repl of
        Inl e \<Rightarrow> Inl e
      | Inr tmpl \<Rightarrow> Inr (concat (map (render tmpl) (scan r False None text))))"

section \<open>The four patterns\<close>

text \<open>\<^verbatim>\<open>\b\d{3}-\d{2}-\d{4}\b\<close>\<close>

definition ssn_rx :: rx where
  "ssn_rx = seq [Bound, Many True 3 (Some 3) is_digit, Atom (one_of ''-''),
     Many True 2 (Some 2) is_digit, Atom (one_of ''-''), Many True 4 (Some 4) is_digit,
     Bound]"

text \<open>\<^verbatim>\<open>\b(?:\+\d{1,3}\s*)?\(?\d{3}\)?[-.\s]?\d{3}[-.\s]?\d{4}\b\<close>\<close>

definition phone_sep :: "char \<Rightarrow> bool" where
  "phone_sep c \<longleftrightarrow> one_of ''-.'' c \<or> is_space c"

definition phone_rx :: rx where
  "phone_rx = seq [Bound,
     Times 0 1 (seq [Atom (one_of ''+''), Many True 1 (Some 3) is_digit,
                     Many True 0 None is_space]),
     Many True 0 (Some 1) (one_of ''(''), Many True 3 (Some 3) is_digit,
     Many True 0 (Some 1) (one_of '')''), Many True 0 (Some 1) phone_sep,
     Many True 3 (Some 3) is_digit, Many True 0 (Some 1) phone_sep,
     Many True 4 (Some 4) is_digit, Bound]"

text \<open>\<^verbatim>\<open>\b[A-Za-z0-9._%+-]+@[A-Za-z0-9.-]+\.[A-Z|a-z]{2,}\b\<close>\<close>

definition email_local :: "char \<Rightarrow> bool" where
  "email_local c \<longleftrightarrow> is_upper c \<or> is_lower c \<or> is_digit c \<or> one_of ''._%+-'' c"

definition email_domain :: "char \<Rightarrow> bool" where
  "email_domain c \<longleftrightarrow> is_upper c \<or> is_lower c \<or> is_digit c \<or> one_of ''.-'' c"

definition email_tld :: "char \<Rightarrow> bool" where
  "email_tld c \<longleftrightarrow> is_upper c \<or> one_of ''|'' c \<or> is_lower c"

definition email_rx :: rx where
  "email_rx = seq [Bound, Many True 1 None email_local, Atom (one_of ''@''),
     Many True 1 None email_domain, Atom (one_of ''.''), Many True 2 None email_tld,
     Bound]"

text \<open>\<^verbatim>\<open>\b(?:\d[ -]*?){13,16}\b\<close>\<close>

definition card_sep :: "char \<Rightarrow> bool" where
  "card_sep c \<longleftrightarrow> one_of '' -'' c"

definition card_rx :: rx where
  "card_rx = seq [Bound, Times 13 16 (seq [Atom is_digit, Many False 0 None card_sep]),
     Bound]"

section \<open>Configuration and \<open>sanitize_text\<close>\<close>

record SanitizeConfig =
  input_file :: string
  output_file :: string
  redact_char :: string
  remove_ssn :: bool
  remove_phone :: bool
  remove_email :: bool
  remove_credit_card :: bool

definition sanitize_text :: "string \<Rightarrow> SanitizeConfig \<Rightarrow> error + string" where
  "sanitize_text text config =
     (case (if remove_ssn config then sub ssn_rx (redact_char config) text else Inr text) of
        Inl e \<Rightarrow> Inl e
      | Inr text \<Rightarrow>
     (case (if remove_phone config then sub phone_rx (redact_char config) text
            else Inr text) of
        Inl e \<Rightarrow> Inl e
      | Inr text \<Rightarrow>
     (case (if remove_email config then sub email_rx (redact_char config) text
            else Inr text) of
        Inl e \<Rightarrow> Inl e
      | Inr text \<Rightarrow>
     (if remove_credit_card config then sub card_rx (redact_char config) text
      else Inr text))))"


section \<open>The four categories\<close>

datatype category = SSN | PHONE | EMAIL | CREDIT_CARD

fun pattern :: "category \<Rightarrow> rx" where
  "pattern SSN = ssn_rx"
| "pattern PHONE = phone_rx"
| "pattern EMAIL = email_rx"
| "pattern CREDIT_CARD = card_rx"

fun enabled :: "SanitizeConfig \<Rightarrow> category \<Rightarrow> bool" where
  "enabled config SSN = remove_ssn config"
| "enabled config PHONE = remove_phone config"
| "enabled config EMAIL = remove_email config"
| "enabled config CREDIT_CARD = remove_credit_card config"

text \<open>The spans one scan replaces, and the text it keeps.\<close>

definition hits :: "rx \<Rightarrow> string \<Rightarrow> string list" where
  "hits r text =
     concat (map (\<lambda>pc. case pc of Keep c \<Rightarrow> [] | Hit m \<Rightarrow> [m]) (scan r False None text))"

definition kept :: "rx \<Rightarrow> string \<Rightarrow> string" where
  "kept r text =
     concat (map (\<lambda>pc. case pc of Keep c \<Rightarrow> [c] | Hit m \<Rightarrow> []) (scan r False None text))"

fun source :: "piece \<Rightarrow> string" where
  "source (Keep c) = [c]"
| "source (Hit m) = m"

section \<open>The passes in the words of the specification\<close>

text \<open>
  The specification describes one pass as a full left-to-right scan-and-replace: the scan
  is leftmost-first and its matches do not overlap, and every match is replaced wholly.
  \<open>replace_all\<close> is that pass, written from these words and not from \<open>re.sub\<close>: at each
  place of the text, when the pattern matches there, the match it reports is replaced and
  the scan goes on behind it; otherwise the character is kept. It has no template and no
  rule for empty matches. \<open>count_all\<close> counts the matches the same scan replaces.
\<close>

definition match_at :: "rx \<Rightarrow> char option \<Rightarrow> string \<Rightarrow> string option" where
  "match_at r p s =
     (case ends r (p, s) of [] \<Rightarrow> None | st # _ \<Rightarrow> Some (take (length s - length (snd st)) s))"

function replace_all :: "rx \<Rightarrow> (string \<Rightarrow> string) \<Rightarrow> char option \<Rightarrow> string \<Rightarrow> string" where
  "replace_all r f p [] = []"
| "replace_all r f p (c # cs) =
     (case match_at r p (c # cs) of
        None \<Rightarrow> c # replace_all r f (Some c) cs
      | Some m \<Rightarrow>
          if m = [] then c # replace_all r f (Some c) cs
          else f m @ replace_all r f (Some (last m)) (drop (length m) (c # cs)))"
  by pat_completeness auto
termination
  by (relation "measure (\<lambda>(r, f, p, s). length s)") auto


text \<open>
  One pass of one category over the current text, a match being replaced by \<open>f\<close> of it:
  the identity when the category is disabled.
\<close>

definition replace_pass ::
  "SanitizeConfig \<Rightarrow> (string \<Rightarrow> string) \<Rightarrow> string \<Rightarrow> category \<Rightarrow> string" where
  "replace_pass config f text cat =
     (if enabled config cat then replace_all (pattern cat) f None text else text)"




section \<open>Validation of the configuration\<close>

text \<open>
  \<open>SanitizeConfig\<close> has two validators. The one of \<open>input_file\<close> raises when the file does
  not exist; the one of \<open>output_file\<close> logs a warning when the file exists and accepts it.
  No validator looks at \<open>redact_char\<close>. The file system is the predicate \<open>exists\<close>.
\<close>

datatype warning = OutputExists string

definition input_file_exists :: "(string \<Rightarrow> bool) \<Rightarrow> string \<Rightarrow> error + string" where
  "input_file_exists exists v = (if exists v then Inr v else Inl ValidationError)"

definition output_file_does_not_exist :: "(string \<Rightarrow> bool) \<Rightarrow> string \<Rightarrow> string \<times> warning list" where
  "output_file_does_not_exist exists v = (v, if exists v then [OutputExists v] else [])"

definition validate :: "(string \<Rightarrow> bool) \<Rightarrow> SanitizeConfig \<Rightarrow> (error + SanitizeConfig) \<times> warning list" where
  "validate exists config =
     (case input_file_exists exists (input_file config) of
        Inl e \<Rightarrow> Inl e
      | Inr v \<Rightarrow> Inr (config\<lparr>input_file := v,
                       output_file := fst (output_file_does_not_exist exists (output_file config))\<rparr>),
      snd (output_file_does_not_exist exists (output_file config)))"

section \<open>Shapes of matches\<close>

definition lastc :: "char option \<Rightarrow> string \<Rightarrow> char option" where
  "lastc p u = (if u = [] then p else Some (last u))"

definition reaches :: "pos \<Rightarrow> pos \<Rightarrow> bool" where
  "reaches st st' \<longleftrightarrow> (\<exists>u. snd st = u @ snd st' \<and> fst st' = lastc (fst st) u)"

text \<open>
  A card span: it starts with a digit, is made of digits, spaces and hyphens only, and
  has between 13 and 16 digits.
\<close>

definition starts_with_digit :: "string \<Rightarrow> bool" where
  "starts_with_digit u = (case u of [] \<Rightarrow> False | c # _ \<Rightarrow> is_digit c)"

definition card_span :: "string \<Rightarrow> bool" where
  "card_span u \<longleftrightarrow> starts_with_digit u \<and> list_all (\<lambda>c. is_digit c \<or> card_sep c) u
     \<and> 13 \<le> length (filter is_digit u) \<and> length (filter is_digit u) \<le> 16"

text \<open>Deleting the matches of a category, when it is enabled.\<close>

definition delete_matches :: "SanitizeConfig \<Rightarrow> category \<Rightarrow> string \<Rightarrow> string" where
  "delete_matches config cat text = (if enabled config cat then kept (pattern cat) text else text)"

text \<open>The configuration of the usage examples, with every default.\<close>

definition example_config :: SanitizeConfig where
  "example_config = \<lparr>input_file = ''input.txt'', output_file = ''output.txt'',
     redact_char = ''<REDACTED>'', remove_ssn = True, remove_phone = True,
     remove_email = True, remove_credit_card = True\<rparr>"

text \<open>A pattern that consumes at least one character in every match.\<close>

primrec advances :: "rx \<Rightarrow> bool" where
  "advances Eps = False"
| "advances (Atom P) = True"
| "advances Bound = False"
| "advances (Cat a b) = (advances a \<or> advances b)"
| "advances (Many g lo hi P) = (0 < lo)"
| "advances (Times lo hi r) = (0 < lo \<and> 0 < hi \<and> advances r)"

text \<open>
  \<open>free r p s\<close>: the pattern matches at no place of the text \<open>s\<close> that follows the
  character \<open>p\<close>.
\<close>

primrec free :: "rx \<Rightarrow> char option \<Rightarrow> string \<Rightarrow> bool" where
  "free r p [] = (ends r (p, []) = [])"
| "free r p (c # cs) = (ends r (p, c # cs) = [] \<and> free r (Some c) cs)"

text \<open>
  The repetition of the card pattern, unfolded: \<open>iter f k\<close> runs the group exactly \<open>k\<close>
  times; \<open>span_of k u\<close> is a span of \<open>k\<close> groups, a digit followed by spaces and hyphens
  each.
\<close>

primrec iter :: "(pos \<Rightarrow> pos list) \<Rightarrow> nat \<Rightarrow> pos \<Rightarrow> pos list" where
  "iter f 0 st = [st]"
| "iter f (Suc k) st = concat (map (iter f k) (f st))"

definition card_group :: rx where
  "card_group = seq [Atom is_digit, Many False 0 None card_sep]"

definition span_of :: "nat \<Rightarrow> string \<Rightarrow> bool" where
  "span_of k u = (if k = 0 then u = []
     else starts_with_digit u \<and> list_all (\<lambda>c. is_digit c \<or> card_sep c) u
       \<and> length (filter is_digit u) = k)"

text \<open>
  Two shapes of text in which no digit can open, or close, a match of the card pattern:
  every digit comes after a word character, or every digit comes before one.
\<close>

primrec blocked :: "char option \<Rightarrow> string \<Rightarrow> bool" where
  "blocked p [] = True"
| "blocked p (c # cs) = ((if is_digit c then word_before p else True) \<and> blocked (Some c) cs)"

primrec followed :: "string \<Rightarrow> bool" where
  "followed [] = True"
| "followed (c # cs) = ((if is_digit c then word_after cs else True) \<and> followed cs)"

text \<open>A configuration with the credit-card category alone.\<close>

definition card_only :: "SanitizeConfig \<Rightarrow> bool" where
  "card_only config \<longleftrightarrow> remove_credit_card config \<and> (if remove_ssn config then False
     else if remove_phone config then False else if remove_email config then False else True)"

section \<open>Markers that no pattern can touch\<close>

text \<open>
  \<open>matches r p u t\<close>: the pattern matches the span \<open>u\<close>, which stands after the character
  \<open>p\<close> and before the text \<open>t\<close>.
\<close>

definition matches :: "rx \<Rightarrow> char option \<Rightarrow> string \<Rightarrow> string \<Rightarrow> bool" where
  "matches r p u t \<longleftrightarrow> (lastc p u, t) \<in> set (ends r (p, u @ t))"

text \<open>
  What a pattern is made of: the characters it can consume; whether every match takes in a
  digit or an \<open>@\<close>; whether it starts, and ends, with the word boundary \<open>\b\<close>.
\<close>

primrec consumes :: "rx \<Rightarrow> char \<Rightarrow> bool" where
  "consumes Eps c = False"
| "consumes (Atom P) c = P c"
| "consumes Bound c = False"
| "consumes (Cat a b) c = (consumes a c \<or> consumes b c)"
| "consumes (Many g lo hi P) c = P c"
| "consumes (Times lo hi r) c = consumes r c"

definition key :: "char \<Rightarrow> bool" where
  "key c \<longleftrightarrow> is_digit c \<or> c = CHR ''@''"

primrec keyed :: "rx \<Rightarrow> bool" where
  "keyed Eps = False"
| "keyed (Atom P) = (\<forall>c. P c \<longrightarrow> key c)"
| "keyed Bound = False"
| "keyed (Cat a b) = (keyed a \<or> keyed b)"
| "keyed (Many g lo hi P) = (0 < lo \<and> (\<forall>c. P c \<longrightarrow> key c))"
| "keyed (Times lo hi r) = (0 < lo \<and> 0 < hi \<and> keyed r)"

primrec opens :: "rx \<Rightarrow> bool" where
  "opens Eps = False"
| "opens (Atom P) = False"
| "opens Bound = True"
| "opens (Cat a b) = opens a"
| "opens (Many g lo hi P) = False"
| "opens (Times lo hi r) = False"

primrec closes :: "rx \<Rightarrow> bool" where
  "closes Eps = False"
| "closes (Atom P) = False"
| "closes Bound = True"
| "closes (Cat a b) = (case b of Eps \<Rightarrow> closes a | _ \<Rightarrow> closes b)"
| "closes (Many g lo hi P) = False"
| "closes (Times lo hi r) = False"

text \<open>
  A marker suits a pattern when the pattern can consume neither its first nor its last
  character and can match nothing inside it. A character is inert when none of the four
  patterns can consume it; a plain marker is not empty, starts and ends with an inert
  character, and holds no digit, no \<open>@\<close> and no backslash, as \<open><REDACTED>\<close> does.
\<close>

definition suits :: "rx \<Rightarrow> string \<Rightarrow> bool" where
  "suits r m \<longleftrightarrow> keyed r \<and> opens r \<and> closes r \<and> m \<noteq> []
     \<and> \<not> consumes r (hd m) \<and> \<not> consumes r (last m) \<and> (\<forall>c\<in>set m. \<not> key c)"

definition inert :: "char \<Rightarrow> bool" where
  "inert c \<longleftrightarrow> list_all (\<lambda>cat. \<not> consumes (pattern cat) c) [SSN, PHONE, EMAIL, CREDIT_CARD]"

definition plain_marker :: "string \<Rightarrow> bool" where
  "plain_marker m \<longleftrightarrow> m \<noteq> [] \<and> inert (hd m) \<and> inert (last m)
     \<and> list_all (\<lambda>c. \<not> key c \<and> c \<noteq> CHR 0x5C) m"

section \<open>What a match consumes\<close>

text \<open>
  Every end of a match is a suffix of the text the match started in, and the scan cuts the
  text into pieces that put together give the text again.
\<close>

lemma reaches_refl: "reaches st st"
  by (simp add: reaches_def lastc_def)

lemma lastc_append: "lastc p (u @ v) = lastc (lastc p u) v"
  by (simp add: lastc_def)

lemma reaches_trans: "reaches a b \<Longrightarrow> reaches b c \<Longrightarrow> reaches a c"
proof -
  assume "reaches a b" "reaches b c"
  then obtain u v where "snd a = u @ snd b" "fst b = lastc (fst a) u"
    "snd b = v @ snd c" "fst c = lastc (fst b) v"
    unfolding reaches_def by blast
  then have "snd a = (u @ v) @ snd c \<and> fst c = lastc (fst a) (u @ v)"
    by (simp add: lastc_append)
  then show ?thesis unfolding reaches_def by blast
qed

lemma reaches_step: "reaches (Some c, cs) st \<Longrightarrow> reaches (p, c # cs) st"
proof -
  assume "reaches (Some c, cs) st"
  then obtain u where u: "cs = u @ snd st" "fst st = lastc (Some c) u"
    unfolding reaches_def by auto
  then have "c # cs = (c # u) @ snd st \<and> fst st = lastc p (c # u)"
    by (simp add: lastc_def)
  then show ?thesis unfolding reaches_def by (metis fst_conv snd_conv)
qed

lemma many_reaches: "st' \<in> set (many g P lo hi st) \<Longrightarrow> reaches st st'"
proof (induction g P lo hi st rule: many.induct)
  case (1 g P lo hi p)
  then show ?case by (auto simp: reaches_refl split: if_splits)
next
  case (2 g P lo hi p c cs)
  then show ?case
    by (auto simp: Let_def reaches_refl reaches_step split: if_splits)
qed

lemma times_reaches:
  assumes f: "\<And>a b. b \<in> set (f a) \<Longrightarrow> reaches a b"
  shows "st' \<in> set (times f lo hi st) \<Longrightarrow> reaches st st'"
proof (induction hi arbitrary: lo st)
  case 0
  then show ?case by (simp add: reaches_refl)
next
  case (Suc hi)
  from Suc.prems consider
    (more) m where "m \<in> set (f st)" "st' \<in> set (times f (lo - 1) hi m)"
    | (stop) "st' = st"
    by (auto split: if_splits)
  then show ?case
  proof cases
    case more
    from f [OF more(1)] Suc.IH [OF more(2)] show ?thesis by (rule reaches_trans)
  next
    case stop
    then show ?thesis by (simp add: reaches_refl)
  qed
qed

lemma ends_reaches: "st' \<in> set (ends r st) \<Longrightarrow> reaches st st'"
proof (induction r arbitrary: st st')
  case Eps
  then show ?case by (simp add: reaches_refl)
next
  case (Atom P)
  obtain p s where st: "st = (p, s)" by (cases st)
  show ?case
  proof (cases s)
    case Nil
    with Atom st show ?thesis by simp
  next
    case (Cons c cs)
    with Atom st have "st' = (Some c, cs)" by (simp split: if_splits)
    with st Cons show ?thesis by (simp add: reaches_step reaches_refl)
  qed
next
  case Bound
  then show ?case by (simp add: reaches_refl split: if_splits)
next
  case (Cat a b)
  from Cat.prems obtain m where m: "m \<in> set (ends a st)" "st' \<in> set (ends b m)"
    by auto
  from Cat.IH(1) [OF m(1)] Cat.IH(2) [OF m(2)] show ?case by (rule reaches_trans)
next
  case (Many g lo hi P)
  then show ?case by (simp add: many_reaches)
next
  case (Times lo hi r)
  from Times.prems have "st' \<in> set (times (ends r) lo hi st)" by simp
  then show ?case by (rule times_reaches [rotated]) (rule Times.IH)
qed

lemma reaches_length: "reaches (p, s) (p', s') \<Longrightarrow> length s' \<le> length s"
  by (auto simp: reaches_def)

lemma reaches_drop: "reaches (p, s) (p', s') \<Longrightarrow> s' = drop (length s - length s') s"
  by (auto simp: reaches_def)

lemma find_SomeD: "find P xs = Some x \<Longrightarrow> P x \<and> x \<in> set xs"
  by (induction xs) (auto split: if_splits)

lemma first_end_mem: "first_end adv s sts = Some st \<Longrightarrow> st \<in> set sts"
  by (auto simp: first_end_def dest: find_SomeD)

lemma scan_none:
  "first_end adv s (ends r (p, s)) = None \<Longrightarrow>
   scan r adv p s = (case s of [] \<Rightarrow> [] | c # cs \<Rightarrow> Keep c # scan r False (Some c) cs)"
  by (subst scan.simps) simp

lemma scan_hit:
  "first_end adv s (ends r (p, s)) = Some (p', s') \<Longrightarrow> length s' < length s \<Longrightarrow>
   scan r adv p s = Hit (take (length s - length s') s) # scan r False p' s'"
  by (subst scan.simps) simp

lemma scan_empty_hit:
  "first_end False s (ends r (p, s)) = Some (p', s') \<Longrightarrow> \<not> length s' < length s \<Longrightarrow>
   scan r False p s = Hit [] # scan r True p s"
  by (subst scan.simps) simp

lemma first_end_adv:
  "first_end True s sts = Some (p', s') \<Longrightarrow> length s' < length s"
  by (auto simp: first_end_def dest!: find_SomeD)

lemma scan_source: "concat (map source (scan r adv p s)) = s"
proof (induction r adv p s rule: scan.induct)
  case (1 r adv p s)
  show ?case
  proof (cases "first_end adv s (ends r (p, s))")
    case None
    note eq = scan_none [OF None]
    show ?thesis
    proof (cases s)
      case Nil
      with eq show ?thesis by simp
    next
      case (Cons c cs)
      with 1(1) [OF None Cons] eq show ?thesis by simp
    qed
  next
    case (Some st)
    obtain p' s' where st: "st = (p', s')" by (cases st)
    note fe = Some [unfolded st]
    have "reaches (p, s) (p', s')"
      using fe first_end_mem ends_reaches by blast
    then have d: "s' = drop (length s - length s') s" by (rule reaches_drop)
    show ?thesis
    proof (cases "length s' < length s")
      case True
      have ih: "concat (map source (scan r False p' s')) = s'"
        using 1(2) [OF Some st [symmetric] True] .
      have "take (length s - length s') s @ s' = s"
        using d by (metis append_take_drop_id)
      then show ?thesis
        by (simp add: scan_hit [OF fe True] ih)
    next
      case False
      have adv: "\<not> adv"
      proof
        assume adv
        with fe have "length s' < length s" by (simp add: first_end_adv)
        with False show False by simp
      qed
      have ih: "concat (map source (scan r True p s)) = s"
        using 1(4) [OF Some st [symmetric] False adv] .
      from adv fe have "first_end False s (ends r (p, s)) = Some (p', s')" by simp
      from scan_empty_hit [OF this False] adv ih show ?thesis by simp
    qed
  qed
qed

section \<open>The scan as a full replacement\<close>

text \<open>
  The four patterns consume a character in every match, so the scan of \<open>re.sub\<close> never
  meets an empty match, and one call of \<open>re.sub\<close> is the full left-to-right replacement
  \<open>replace_all\<close>, each match replaced by the expansion of the template.
\<close>

lemma many_advances:
  "0 < lo \<Longrightarrow> st' \<in> set (many g P lo hi (p, s)) \<Longrightarrow> length (snd st') < length s"
proof (cases s)
  case Nil
  assume "0 < lo" "st' \<in> set (many g P lo hi (p, s))"
  with Nil show ?thesis by simp
next
  case (Cons c cs)
  assume lo: "0 < lo" and m: "st' \<in> set (many g P lo hi (p, s))"
  from m Cons lo have "st' \<in> set (many g P (lo - 1) (map_option (\<lambda>h. h - 1) hi) (Some c, cs))"
    by (auto simp: Let_def split: if_splits)
  then have "reaches (Some c, cs) st'" by (rule many_reaches)
  then have "length (snd st') \<le> length cs" by (cases st') (simp add: reaches_length)
  with Cons show ?thesis by simp
qed

lemma ends_length: "st' \<in> set (ends r st) \<Longrightarrow> length (snd st') \<le> length (snd st)"
proof -
  assume "st' \<in> set (ends r st)"
  then have "reaches st st'" by (rule ends_reaches)
  then show ?thesis by (cases st, cases st') (simp add: reaches_length)
qed

lemma advances_shorter:
  "advances r \<Longrightarrow> st' \<in> set (ends r st) \<Longrightarrow> length (snd st') < length (snd st)"
proof (induction r arbitrary: st st')
  case Eps
  then show ?case by simp
next
  case (Atom P)
  then show ?case by (cases st; cases "snd st") (auto split: if_splits)
next
  case Bound
  then show ?case by simp
next
  case (Cat a b)
  from Cat.prems(2) obtain m where m: "m \<in> set (ends a st)" "st' \<in> set (ends b m)" by auto
  from m have le: "length (snd m) \<le> length (snd st)" "length (snd st') \<le> length (snd m)"
    by (simp_all add: ends_length)
  from Cat.prems(1) have "advances a \<or> advances b" by simp
  then show ?case
  proof
    assume "advances a"
    from Cat.IH(1) [OF this m(1)] le show ?thesis by simp
  next
    assume "advances b"
    from Cat.IH(2) [OF this m(2)] le show ?thesis by simp
  qed
next
  case (Many g lo hi P)
  then show ?case by (cases st) (simp add: many_advances)
next
  case (Times lo hi r)
  from Times.prems(1) obtain h where hi: "hi = Suc h" and lo: "0 < lo" and a: "advances r"
    by (cases hi) auto
  from Times.prems(2) hi lo obtain m where m: "m \<in> set (ends r st)"
    "st' \<in> set (times (ends r) (lo - 1) h m)" by auto
  have "reaches m st'"
    using m(2) by (rule times_reaches [rotated]) (rule ends_reaches)
  then have "length (snd st') \<le> length (snd m)" by (cases m, cases st') (simp add: reaches_length)
  with Times.IH [OF a m(1)] show ?case by simp
qed

lemma patterns_advance: "advances (pattern cat)"
  by (cases cat) (simp_all add: ssn_rx_def phone_rx_def email_rx_def card_rx_def seq_def)

lemma first_end_all:
  "(\<And>st. st \<in> set sts \<Longrightarrow> length (snd st) < length s) \<Longrightarrow>
   first_end adv s sts = (case sts of [] \<Rightarrow> None | st # _ \<Rightarrow> Some st)"
  by (cases sts) (simp_all add: first_end_def)

lemma replace_all_hit:
  assumes e: "ends r (p, s) = (p', s') # rest" and l: "length s' < length s"
  shows "replace_all r f p s =
     f (take (length s - length s') s) @ replace_all r f p' s'"
proof -
  have "(p', s') \<in> set (ends r (p, s))" using e by simp
  then have re: "reaches (p, s) (p', s')" by (rule ends_reaches)
  then obtain u where u: "s = u @ s'" "p' = lastc p u" unfolding reaches_def by auto
  with l have ne: "u \<noteq> []" by auto
  have t: "take (length s - length s') s = u" using u by simp
  have m: "match_at r p s = Some u" using e t by (simp add: match_at_def)
  from ne u obtain c cs where s: "s = c # cs" by (cases u) auto
  have "drop (length u) s = s'" using u by simp
  moreover have "Some (last u) = p'" using u ne by (simp add: lastc_def)
  ultimately show ?thesis unfolding t using m ne s by simp
qed

lemma replace_all_keep:
  "ends r (p, c # cs) = [] \<Longrightarrow> replace_all r f p (c # cs) = c # replace_all r f (Some c) cs"
  by (simp add: match_at_def)

lemma scan_replace_all:
  "(\<And>st st'. st' \<in> set (ends r st) \<Longrightarrow> length (snd st') < length (snd st)) \<Longrightarrow>
   concat (map (render tmpl) (scan r adv p s)) = replace_all r (expand_template tmpl) p s"
proof (induction r adv p s rule: scan.induct)
  case (1 r adv p s)
  note ne = "1.prems"
  have sh: "\<And>st. st \<in> set (ends r (p, s)) \<Longrightarrow> length (snd st) < length s"
    using ne by fastforce
  note fe = first_end_all [of "ends r (p, s)" s adv, OF sh]
  show ?case
  proof (cases "ends r (p, s)")
    case Nil
    with fe have none: "first_end adv s (ends r (p, s)) = None" by simp
    note eq = scan_none [OF none]
    show ?thesis
    proof (cases s)
      case Nil
      with eq show ?thesis by simp
    next
      case (Cons c cs)
      have "concat (map (render tmpl) (scan r False (Some c) cs))
          = replace_all r (expand_template tmpl) (Some c) cs"
        using "1.IH"(1) [OF none Cons] ne by blast
      with eq Cons Nil show ?thesis by (simp add: match_at_def)
    qed
  next
    case (Cons st rest)
    obtain p' s' where st: "st = (p', s')" by (cases st)
    from Cons st fe have some: "first_end adv s (ends r (p, s)) = Some (p', s')" by simp
    from Cons st sh have l: "length s' < length s" by fastforce
    have "concat (map (render tmpl) (scan r False p' s'))
        = replace_all r (expand_template tmpl) p' s'"
      using "1.IH"(2) [OF some refl l] ne by blast
    moreover note scan_hit [OF some l]
    moreover note replace_all_hit [OF Cons [unfolded st] l, of "expand_template tmpl"]
    ultimately show ?thesis by simp
  qed
qed

lemma sub_replace_all:
  assumes "advances r" and "parse_template repl = Inr tmpl"
  shows "sub r repl text = Inr (replace_all r (expand_template tmpl) None text)"
proof -
  have "concat (map (render tmpl) (scan r False None text))
      = replace_all r (expand_template tmpl) None text"
    by (rule scan_replace_all) (rule advances_shorter [OF assms(1)])
  with assms(2) show ?thesis by (simp add: sub_def)
qed

text \<open>A marker without a backslash is a template that stands for itself.\<close>

lemma tokenize_plain: "CHR 0x5C \<notin> set m \<Longrightarrow> tokenize m = Inr (map Ch m)"
  by (induction m) auto

lemma parse_tokens_plain: "parse_tokens (map Ch m) = Inr (map Lit m)"
  by (induction m) simp_all

lemma parse_template_plain: "CHR 0x5C \<notin> set m \<Longrightarrow> parse_template m = Inr (map Lit m)"
  by (simp add: parse_template_def tokenize_plain parse_tokens_plain)

lemma expand_plain: "expand_template (map Lit m) = (\<lambda>h. m)"
proof
  fix h
  show "expand_template (map Lit m) h = m"
    by (induction m) (simp_all add: expand_template_def)
qed

section \<open>The literal scenarios\<close>

lemma pass1_ssn:
  "sub ssn_rx ''<REDACTED>'' ''Contact John at 555-123-4567 or john@example.com. SSN: 123-45-6789.''
   = Inr ''Contact John at 555-123-4567 or john@example.com. SSN: <REDACTED>.''"
  by code_simp

lemma pass1_phone:
  "sub phone_rx ''<REDACTED>'' ''Contact John at 555-123-4567 or john@example.com. SSN: <REDACTED>.''
   = Inr ''Contact John at <REDACTED> or john@example.com. SSN: <REDACTED>.''"
  by code_simp

lemma pass1_email:
  "sub email_rx ''<REDACTED>'' ''Contact John at <REDACTED> or john@example.com. SSN: <REDACTED>.''
   = Inr ''Contact John at <REDACTED> or <REDACTED>. SSN: <REDACTED>.''"
  by code_simp

lemma pass1_card:
  "sub card_rx ''<REDACTED>'' ''Contact John at <REDACTED> or <REDACTED>. SSN: <REDACTED>.''
   = Inr ''Contact John at <REDACTED> or <REDACTED>. SSN: <REDACTED>.''"
  by code_simp

lemma hits1_ssn:
  "hits ssn_rx ''Contact John at 555-123-4567 or john@example.com. SSN: 123-45-6789.''
   = [''123-45-6789'']"
  by code_simp

lemma hits1_phone:
  "hits phone_rx ''Contact John at 555-123-4567 or john@example.com. SSN: <REDACTED>.''
   = [''555-123-4567'']"
  by code_simp

lemma hits1_email:
  "hits email_rx ''Contact John at <REDACTED> or john@example.com. SSN: <REDACTED>.''
   = [''john@example.com'']"
  by code_simp

lemma hits1_card:
  "hits card_rx ''Contact John at <REDACTED> or <REDACTED>. SSN: <REDACTED>.'' = []"
  by code_simp

text \<open>
  Claim C1. On the text of scenario 1, with the four detectors enabled and the marker
  \<open><REDACTED>\<close>, \<open>sanitize_text\<close> returns the text in which the phone number, the email
  address and the SSN are replaced by the marker, each by exactly one replacement: the SSN
  pass, the phone pass and the email pass replace one span each, the card pass none.
\<close>

theorem scenario_1:
  "sanitize_text ''Contact John at 555-123-4567 or john@example.com. SSN: 123-45-6789.''
     (config\<lparr>redact_char := ''<REDACTED>'', remove_ssn := True, remove_phone := True,
        remove_email := True, remove_credit_card := True\<rparr>)
   = Inr ''Contact John at <REDACTED> or <REDACTED>. SSN: <REDACTED>.''
   \<and> hits ssn_rx ''Contact John at 555-123-4567 or john@example.com. SSN: 123-45-6789.''
       = [''123-45-6789'']
   \<and> hits phone_rx ''Contact John at 555-123-4567 or john@example.com. SSN: <REDACTED>.''
       = [''555-123-4567'']
   \<and> hits email_rx ''Contact John at <REDACTED> or john@example.com. SSN: <REDACTED>.''
       = [''john@example.com'']
   \<and> hits card_rx ''Contact John at <REDACTED> or <REDACTED>. SSN: <REDACTED>.'' = []"
  by (simp add: sanitize_text_def pass1_ssn pass1_phone pass1_email pass1_card
      hits1_ssn hits1_phone hits1_email hits1_card)

theorem scenario_1_witness:
  "sanitize_text ''Contact John at 555-123-4567 or john@example.com. SSN: 123-45-6789.''
     example_config
   = Inr ''Contact John at <REDACTED> or <REDACTED>. SSN: <REDACTED>.''"
  using scenario_1 [of example_config] by (simp add: example_config_def)

section \<open>Order of the passes\<close>

lemma pass_step:
  assumes "parse_template (redact_char config) = Inr tmpl"
  shows "(if enabled config cat then sub (pattern cat) (redact_char config) t else Inr t)
    = Inr (replace_pass config (expand_template tmpl) t cat)"
  by (simp add: replace_pass_def sub_replace_all [OF patterns_advance assms])

lemma sanitize_text_passes:
  assumes "parse_template (redact_char config) = Inr tmpl"
  shows "sanitize_text text config =
    Inr (foldl (replace_pass config (expand_template tmpl)) text
           [SSN, PHONE, EMAIL, CREDIT_CARD])"
proof -
  have 1: "(if remove_ssn config then sub ssn_rx (redact_char config) t else Inr t)
    = Inr (replace_pass config (expand_template tmpl) t SSN)" for t
    by (rule pass_step [OF assms, of SSN t, unfolded enabled.simps pattern.simps])
  have 2: "(if remove_phone config then sub phone_rx (redact_char config) t else Inr t)
    = Inr (replace_pass config (expand_template tmpl) t PHONE)" for t
    by (rule pass_step [OF assms, of PHONE t, unfolded enabled.simps pattern.simps])
  have 3: "(if remove_email config then sub email_rx (redact_char config) t else Inr t)
    = Inr (replace_pass config (expand_template tmpl) t EMAIL)" for t
    by (rule pass_step [OF assms, of EMAIL t, unfolded enabled.simps pattern.simps])
  have 4: "(if remove_credit_card config then sub card_rx (redact_char config) t else Inr t)
    = Inr (replace_pass config (expand_template tmpl) t CREDIT_CARD)" for t
    by (rule pass_step [OF assms, of CREDIT_CARD t, unfolded enabled.simps pattern.simps])
  show ?thesis
    unfolding sanitize_text_def 1 2 3 4 by simp
qed

lemma sanitize_text_plain:
  assumes "CHR 0x5C \<notin> set (redact_char config)"
  shows "sanitize_text text config =
    Inr (foldl (replace_pass config (\<lambda>m. redact_char config)) text
           [SSN, PHONE, EMAIL, CREDIT_CARD])"
proof -
  note p = parse_template_plain [OF assms]
  show ?thesis
    using sanitize_text_passes [OF p, of "text"] by (simp only: expand_plain)
qed

text \<open>
  Claim C3. For every text and every configuration whose marker is a well-formed
  replacement template, \<open>sanitize_text\<close> returns the sequential composition of the four
  passes in the order SSN, PHONE, EMAIL, CREDIT_CARD: each enabled pass is the full
  left-to-right replacement \<open>replace_all\<close> over the text the previous pass produced, a
  disabled pass is the identity. A match is replaced by the expansion of the template; for
  a marker without a backslash that is the marker itself.
\<close>

theorem sanitize_sequential:
  "(parse_template (redact_char config) = Inr tmpl \<longrightarrow>
      sanitize_text text config =
        Inr (foldl (replace_pass config (expand_template tmpl)) text
               [SSN, PHONE, EMAIL, CREDIT_CARD]))
   \<and> (CHR 0x5C \<notin> set (redact_char config) \<longrightarrow>
      sanitize_text text config =
        Inr (foldl (replace_pass config (\<lambda>m. redact_char config)) text
               [SSN, PHONE, EMAIL, CREDIT_CARD]))"
  using sanitize_text_passes sanitize_text_plain by blast

theorem sanitize_sequential_witness:
  "parse_template (redact_char example_config) = Inr (map Lit ''<REDACTED>'')
   \<and> CHR 0x5C \<notin> set (redact_char example_config)
   \<and> sanitize_text
       ''SSN 123-45-6789 and 987-65-4321, call 555-123-4567, card 4111 1111 1111 1111.''
       example_config
     = Inr ''SSN <REDACTED> and <REDACTED>, call <REDACTED>, card <REDACTED>.''"
proof -
  have p: "parse_template (redact_char example_config) = Inr (map Lit ''<REDACTED>'')"
    by code_simp
  have b: "CHR 0x5C \<notin> set (redact_char example_config)"
    by code_simp
  have e: "foldl (replace_pass example_config (\<lambda>m. redact_char example_config))
      ''SSN 123-45-6789 and 987-65-4321, call 555-123-4567, card 4111 1111 1111 1111.''
      [SSN, PHONE, EMAIL, CREDIT_CARD]
    = ''SSN <REDACTED> and <REDACTED>, call <REDACTED>, card <REDACTED>.''"
    by code_simp
  from sanitize_sequential [of example_config "map Lit ''<REDACTED>''"
      "''SSN 123-45-6789 and 987-65-4321, call 555-123-4567, card 4111 1111 1111 1111.''"] b
  have r: "sanitize_text
      ''SSN 123-45-6789 and 987-65-4321, call 555-123-4567, card 4111 1111 1111 1111.''
      example_config
    = Inr (foldl (replace_pass example_config (\<lambda>m. redact_char example_config))
      ''SSN 123-45-6789 and 987-65-4321, call 555-123-4567, card 4111 1111 1111 1111.''
      [SSN, PHONE, EMAIL, CREDIT_CARD])"
    by blast
  show ?thesis
    unfolding r e by (intro conjI p b refl)
qed

text \<open>
  Claim C7. When the four categories are disabled, \<open>sanitize_text\<close> returns the text
  unchanged, whatever the text and the marker.
\<close>

theorem all_disabled_identity:
  "\<not> remove_ssn config \<Longrightarrow> \<not> remove_phone config \<Longrightarrow> \<not> remove_email config \<Longrightarrow>
   \<not> remove_credit_card config \<Longrightarrow> sanitize_text text config = Inr text"
  by (simp add: sanitize_text_def)

theorem all_disabled_identity_witness:
  "sanitize_text ''Contact John at 555-123-4567''
     (example_config\<lparr>remove_ssn := False, remove_phone := False, remove_email := False,
        remove_credit_card := False\<rparr>) = Inr ''Contact John at 555-123-4567''"
  using all_disabled_identity [of "example_config\<lparr>remove_ssn := False,
    remove_phone := False, remove_email := False, remove_credit_card := False\<rparr>"
    "''Contact John at 555-123-4567''"]
  by (simp add: example_config_def)

section \<open>Markers with a backslash\<close>

lemma template_backslash: "parse_template [CHR 0x5C] = Inl TemplateError"
  by (simp add: parse_template_def)

text \<open>
  Claim C9 says that \<open>sanitize_text\<close> has no error case. The marker is given to \<open>re.sub\<close>
  as a replacement template: with the marker made of one backslash and the SSN category
  enabled, \<open>sanitize_text\<close> raises on every text.
\<close>

theorem backslash_marker_raises:
  "sanitize_text text (config\<lparr>redact_char := [CHR 0x5C], remove_ssn := True\<rparr>)
   = Inl TemplateError"
  by (simp add: sanitize_text_def sub_def template_backslash)

theorem backslash_marker_raises_witness:
  "sanitize_text ''123-45-6789'' (example_config\<lparr>redact_char := [CHR 0x5C]\<rparr>)
   = Inl TemplateError"
  using backslash_marker_raises [of "''123-45-6789''" example_config]
  by (simp add: example_config_def)

section \<open>Phone numbers with a country code\<close>

lemma phone_plus_start: "sub phone_rx ''<REDACTED>'' ''+1 555-123-4567'' = Inr ''+1 <REDACTED>''"
  by code_simp

lemma phone_plus_ssn: "sub ssn_rx ''<REDACTED>'' ''+1 555-123-4567'' = Inr ''+1 555-123-4567''"
  by code_simp

lemma phone_plus_email: "sub email_rx ''<REDACTED>'' ''+1 <REDACTED>'' = Inr ''+1 <REDACTED>''"
  by code_simp

lemma phone_plus_card: "sub card_rx ''<REDACTED>'' ''+1 <REDACTED>'' = Inr ''+1 <REDACTED>''"
  by code_simp

text \<open>
  Claim C4 says that a phone number with a leading \<open>+\<close> and a country code is replaced
  whole. At the start of the text the \<open>+\<close> and the country code stay: the word boundary
  that opens the pattern cannot stand before a \<open>+\<close> there.
\<close>

theorem plus_country_code_left:
  "sanitize_text ''+1 555-123-4567''
     (config\<lparr>redact_char := ''<REDACTED>'', remove_ssn := True, remove_phone := True,
        remove_email := True, remove_credit_card := True\<rparr>)
   = Inr ''+1 <REDACTED>''"
  by (simp add: sanitize_text_def phone_plus_start phone_plus_ssn phone_plus_email phone_plus_card)

theorem plus_country_code_left_witness:
  "sanitize_text ''+1 555-123-4567'' example_config = Inr ''+1 <REDACTED>''"
  using plus_country_code_left [of example_config] by (simp add: example_config_def)

section \<open>The value returned\<close>






section \<open>The empty marker\<close>

lemma parse_template_Nil: "parse_template [] = Inr []"
  by (simp add: parse_template_def)

lemma render_Nil: "render [] pc = (case pc of Keep c \<Rightarrow> [c] | Hit m \<Rightarrow> [])"
  by (cases pc) (simp_all add: expand_template_def)

lemma render_Nil_fun: "render [] = (\<lambda>pc. case pc of Keep c \<Rightarrow> [c] | Hit m \<Rightarrow> [])"
  by (rule ext) (rule render_Nil)

lemma sub_empty_marker: "sub r [] text = Inr (kept r text)"
  by (simp add: sub_def parse_template_Nil kept_def render_Nil_fun)

lemma kept_hits_length:
  "length (kept r text) + sum_list (map length (hits r text)) = length text"
proof -
  have "length (concat (map (\<lambda>pc. case pc of Keep c \<Rightarrow> [c] | Hit m \<Rightarrow> []) ps))
      + sum_list (map length (concat (map (\<lambda>pc. case pc of Keep c \<Rightarrow> [] | Hit m \<Rightarrow> [m]) ps)))
      = length (concat (map source ps))" for ps
  proof (induction ps)
    case Nil
    show ?case by simp
  next
    case (Cons pc ps)
    then show ?case by (cases pc) simp_all
  qed
  then show ?thesis by (simp add: kept_def hits_def scan_source)
qed

text \<open>
  Claim C10. No validator looks at the marker: with the empty marker the configuration is
  accepted or rejected, and warned about, on its two file names alone. \<open>sanitize_text\<close>
  with the empty marker does not raise and returns the text from which every enabled pass,
  in order, has deleted the spans it matches.
\<close>

theorem empty_marker_deletes:
  "validate exists (config\<lparr>redact_char := []\<rparr>) =
     (if exists (input_file config) then Inr (config\<lparr>redact_char := []\<rparr>)
      else Inl ValidationError,
      if exists (output_file config) then [OutputExists (output_file config)] else [])
   \<and> sanitize_text text (config\<lparr>redact_char := []\<rparr>) =
       Inr (delete_matches config CREDIT_CARD (delete_matches config EMAIL
             (delete_matches config PHONE (delete_matches config SSN text))))"
  by (simp add: validate_def input_file_exists_def output_file_does_not_exist_def
      sanitize_text_def sub_empty_marker delete_matches_def)

theorem empty_marker_deletes_witness:
  "validate (\<lambda>f. f = ''input.txt'') (example_config\<lparr>redact_char := []\<rparr>) =
     (Inr (example_config\<lparr>redact_char := []\<rparr>), [])
   \<and> sanitize_text ''Call 555-123-4567 now'' (example_config\<lparr>redact_char := []\<rparr>) =
       Inr ''Call  now''"
proof -
  have k: "kept ssn_rx ''Call 555-123-4567 now'' = ''Call 555-123-4567 now''"
    "kept phone_rx ''Call 555-123-4567 now'' = ''Call  now''"
    "kept email_rx ''Call  now'' = ''Call  now''"
    "kept card_rx ''Call  now'' = ''Call  now''"
    by code_simp+
  show ?thesis
    using empty_marker_deletes [of "\<lambda>f. f = ''input.txt''" example_config
        "''Call 555-123-4567 now''"]
    by (simp add: example_config_def delete_matches_def k)
qed

section \<open>The spans the card pattern matches\<close>

text \<open>
  The ends of the matches of the card pattern, as a set: the repetition with bounds is a
  union of exact repetitions, and \<open>k\<close> runs of the group consume a span of \<open>k\<close> digits, each
  followed by any number of spaces and hyphens.
\<close>

lemma many_star_iff:
  "st' \<in> set (many g P 0 None (p, s)) \<longleftrightarrow>
     (\<exists>u. s = u @ snd st' \<and> list_all P u \<and> fst st' = lastc p u)"
proof (induction s arbitrary: p)
  case Nil
  show ?case by (cases st') (auto simp: lastc_def)
next
  case (Cons c cs)
  have more: "st' \<in> set (many g P 0 None (Some c, cs)) \<longleftrightarrow>
     (\<exists>u. cs = u @ snd st' \<and> list_all P u \<and> fst st' = lastc (Some c) u)"
    by (rule Cons.IH)
  have "st' \<in> set (many g P 0 None (p, c # cs)) \<longleftrightarrow>
    st' = (p, c # cs) \<or> (P c \<and> st' \<in> set (many g P 0 None (Some c, cs)))"
    by (auto simp: Let_def)
  also have "\<dots> \<longleftrightarrow> (\<exists>u. c # cs = u @ snd st' \<and> list_all P u \<and> fst st' = lastc p u)"
  proof
    assume "st' = (p, c # cs) \<or> (P c \<and> st' \<in> set (many g P 0 None (Some c, cs)))"
    then show "\<exists>u. c # cs = u @ snd st' \<and> list_all P u \<and> fst st' = lastc p u"
    proof
      assume "st' = (p, c # cs)"
      then have "c # cs = [] @ snd st' \<and> list_all P [] \<and> fst st' = lastc p []"
        by (simp add: lastc_def)
      then show ?thesis by blast
    next
      assume "P c \<and> st' \<in> set (many g P 0 None (Some c, cs))"
      with more obtain u where "P c" "cs = u @ snd st'" "list_all P u"
        "fst st' = lastc (Some c) u" by blast
      then have "c # cs = (c # u) @ snd st' \<and> list_all P (c # u) \<and> fst st' = lastc p (c # u)"
        by (simp add: lastc_def)
      then show ?thesis by blast
    qed
  next
    assume "\<exists>u. c # cs = u @ snd st' \<and> list_all P u \<and> fst st' = lastc p u"
    then obtain u where u: "c # cs = u @ snd st'" "list_all P u" "fst st' = lastc p u"
      by blast
    show "st' = (p, c # cs) \<or> (P c \<and> st' \<in> set (many g P 0 None (Some c, cs)))"
    proof (cases u)
      case Nil
      with u have "st' = (p, c # cs)" by (cases st') (simp add: lastc_def)
      then show ?thesis ..
    next
      case (Cons d v)
      with u have "P c" "cs = v @ snd st'" "list_all P v" "fst st' = lastc (Some c) v"
        by (auto simp: lastc_def)
      with more show ?thesis by blast
    qed
  qed
  finally show ?case .
qed

lemma card_group_iff:
  "st' \<in> set (ends card_group (p, s)) \<longleftrightarrow>
     (\<exists>d v. s = d # v @ snd st' \<and> is_digit d \<and> list_all card_sep v
        \<and> fst st' = lastc (Some d) v)"
proof (cases s)
  case Nil
  then show ?thesis by (simp add: card_group_def seq_def)
next
  case (Cons c cs)
  have "st' \<in> set (ends card_group (p, s)) \<longleftrightarrow>
    is_digit c \<and> st' \<in> set (many False card_sep 0 None (Some c, cs))"
    using Cons by (simp add: card_group_def seq_def)
  also have "\<dots> \<longleftrightarrow> is_digit c \<and>
    (\<exists>u. cs = u @ snd st' \<and> list_all card_sep u \<and> fst st' = lastc (Some c) u)"
    by (simp only: many_star_iff)
  also have "\<dots> \<longleftrightarrow> (\<exists>d v. s = d # v @ snd st' \<and> is_digit d \<and> list_all card_sep v
        \<and> fst st' = lastc (Some d) v)"
    using Cons by auto
  finally show ?thesis .
qed

lemma times_iff:
  "lo \<le> hi \<Longrightarrow> st' \<in> set (times f lo hi st) \<longleftrightarrow>
     (\<exists>k. lo \<le> k \<and> k \<le> hi \<and> st' \<in> set (iter f k st))"
proof (induction hi arbitrary: lo st)
  case 0
  then show ?case by auto
next
  case (Suc h)
  have le: "lo - 1 \<le> h" using Suc.prems by simp
  have ih: "st' \<in> set (times f (lo - 1) h m) \<longleftrightarrow>
     (\<exists>j. lo - 1 \<le> j \<and> j \<le> h \<and> st' \<in> set (iter f j m))" for m
    by (rule Suc.IH [OF le])
  have "st' \<in> set (times f lo (Suc h) st) \<longleftrightarrow>
    (\<exists>m\<in>set (f st). st' \<in> set (times f (lo - 1) h m)) \<or> (lo = 0 \<and> st' = st)"
    by auto
  also have "\<dots> \<longleftrightarrow>
    (\<exists>j. lo - 1 \<le> j \<and> j \<le> h \<and> st' \<in> set (iter f (Suc j) st)) \<or> (lo = 0 \<and> st' = st)"
    unfolding ih by auto
  also have "\<dots> \<longleftrightarrow> (\<exists>k. lo \<le> k \<and> k \<le> Suc h \<and> st' \<in> set (iter f k st))"
  proof
    assume "(\<exists>j. lo - 1 \<le> j \<and> j \<le> h \<and> st' \<in> set (iter f (Suc j) st)) \<or> (lo = 0 \<and> st' = st)"
    then show "\<exists>k. lo \<le> k \<and> k \<le> Suc h \<and> st' \<in> set (iter f k st)"
    proof
      assume "\<exists>j. lo - 1 \<le> j \<and> j \<le> h \<and> st' \<in> set (iter f (Suc j) st)"
      then obtain j where "lo - 1 \<le> j" "j \<le> h" "st' \<in> set (iter f (Suc j) st)" by blast
      then have "lo \<le> Suc j \<and> Suc j \<le> Suc h \<and> st' \<in> set (iter f (Suc j) st)" by simp
      then show ?thesis by blast
    next
      assume "lo = 0 \<and> st' = st"
      then have "lo \<le> 0 \<and> 0 \<le> Suc h \<and> st' \<in> set (iter f 0 st)" by simp
      then show ?thesis by blast
    qed
  next
    assume "\<exists>k. lo \<le> k \<and> k \<le> Suc h \<and> st' \<in> set (iter f k st)"
    then obtain k where k: "lo \<le> k" "k \<le> Suc h" "st' \<in> set (iter f k st)" by blast
    show "(\<exists>j. lo - 1 \<le> j \<and> j \<le> h \<and> st' \<in> set (iter f (Suc j) st)) \<or> (lo = 0 \<and> st' = st)"
    proof (cases k)
      case 0
      with k show ?thesis by simp
    next
      case (Suc j)
      with k have "lo - 1 \<le> j \<and> j \<le> h \<and> st' \<in> set (iter f (Suc j) st)" by simp
      then show ?thesis by blast
    qed
  qed
  finally show ?case .
qed

lemma card_sep_not_digit: "card_sep c \<Longrightarrow> \<not> is_digit c"
proof -
  have "\<not> is_digit CHR '' ''" "\<not> is_digit CHR ''-''" by code_simp+
  then show "card_sep c \<Longrightarrow> \<not> is_digit c"
    by (auto simp: card_sep_def one_of_def)
qed

lemma filter_digit_seps: "list_all card_sep v \<Longrightarrow> filter is_digit v = []"
  by (induction v) (auto dest: card_sep_not_digit)

lemma lastc_Cons: "lastc p (d # v) = lastc (Some d) v"
  by (simp add: lastc_def)

lemma span_of_step:
  assumes d: "is_digit d" and v: "list_all card_sep v" and w: "span_of k w"
  shows "span_of (Suc k) (d # v @ w)"
proof -
  have fv: "filter is_digit v = []" by (rule filter_digit_seps [OF v])
  have av: "list_all (\<lambda>c. is_digit c \<or> card_sep c) v"
    using v by (induction v) auto
  have aw: "list_all (\<lambda>c. is_digit c \<or> card_sep c) w"
    using w by (cases "k = 0") (simp_all add: span_of_def)
  have lw: "length (filter is_digit w) = k"
    using w by (cases "k = 0") (simp_all add: span_of_def)
  show ?thesis
    using d fv av aw lw by (simp add: span_of_def starts_with_digit_def)
qed

lemma span_of_split:
  assumes "span_of (Suc k) u"
  shows "\<exists>d v w. u = d # v @ w \<and> is_digit d \<and> list_all card_sep v \<and> span_of k w"
proof -
  from assms obtain d rest where u: "u = d # rest" and d: "is_digit d"
    by (cases u) (auto simp: span_of_def starts_with_digit_def)
  from assms u d have all: "list_all (\<lambda>c. is_digit c \<or> card_sep c) rest"
    and len: "length (filter is_digit rest) = k"
    by (simp_all add: span_of_def)
  define v where "v = takeWhile card_sep rest"
  define w where "w = dropWhile card_sep rest"
  have rest: "rest = v @ w" by (simp add: v_def w_def)
  have v: "list_all card_sep v"
    unfolding v_def list_all_iff by (auto dest: set_takeWhileD)
  have fv: "filter is_digit v = []" by (rule filter_digit_seps [OF v])
  have lw: "length (filter is_digit w) = k" using len fv by (simp add: rest)
  have aw: "list_all (\<lambda>c. is_digit c \<or> card_sep c) w" using all by (simp add: rest)
  have hw: "w \<noteq> [] \<Longrightarrow> is_digit (hd w)"
  proof -
    assume ne: "w \<noteq> []"
    then have "\<not> card_sep (hd w)" unfolding w_def by (rule hd_dropWhile)
    moreover have "is_digit (hd w) \<or> card_sep (hd w)"
      using aw ne by (cases w) simp_all
    ultimately show "is_digit (hd w)" by blast
  qed
  have "span_of k w"
  proof (cases "k = 0")
    case True
    have "w = []"
    proof (rule ccontr)
      assume ne: "w \<noteq> []"
      then obtain c cs where w: "w = c # cs" by (cases w) auto
      with hw ne have "is_digit c" by simp
      with lw True w show False by simp
    qed
    with True show ?thesis by (simp add: span_of_def)
  next
    case False
    with lw have ne: "w \<noteq> []" by auto
    then obtain c cs where w: "w = c # cs" by (cases w) auto
    with hw ne have "is_digit c" by simp
    with w aw lw False show ?thesis by (simp add: span_of_def starts_with_digit_def)
  qed
  with u rest d v show ?thesis by blast
qed

lemma iter_card_iff:
  "st' \<in> set (iter (ends card_group) k (p, s)) \<longleftrightarrow>
     (\<exists>u. s = u @ snd st' \<and> fst st' = lastc p u \<and> span_of k u)"
proof (induction k arbitrary: p s)
  case 0
  show ?case by (auto simp: span_of_def lastc_def prod_eq_iff)
next
  case (Suc k)
  show ?case
  proof
    assume "st' \<in> set (iter (ends card_group) (Suc k) (p, s))"
    then obtain m where m: "m \<in> set (ends card_group (p, s))"
      and st': "st' \<in> set (iter (ends card_group) k m)" by auto
    from m obtain d v where s: "s = d # v @ snd m" and d: "is_digit d"
      and v: "list_all card_sep v" and fm: "fst m = lastc (Some d) v"
      unfolding card_group_iff by blast
    from st' have "st' \<in> set (iter (ends card_group) k (fst m, snd m))" by simp
    then obtain w where w: "snd m = w @ snd st'" and fw: "fst st' = lastc (fst m) w"
      and sp: "span_of k w" unfolding Suc.IH by blast
    have 1: "s = (d # v @ w) @ snd st'" using s w by simp
    have 2: "fst st' = lastc p (d # v @ w)"
      using fw fm by (simp add: lastc_Cons lastc_append)
    have 3: "span_of (Suc k) (d # v @ w)" by (rule span_of_step [OF d v sp])
    from 1 2 3 show "\<exists>u. s = u @ snd st' \<and> fst st' = lastc p u \<and> span_of (Suc k) u" by blast
  next
    assume "\<exists>u. s = u @ snd st' \<and> fst st' = lastc p u \<and> span_of (Suc k) u"
    then obtain u where s: "s = u @ snd st'" and f: "fst st' = lastc p u"
      and sp: "span_of (Suc k) u" by blast
    from span_of_split [OF sp] obtain d v w where u: "u = d # v @ w" and d: "is_digit d"
      and v: "list_all card_sep v" and w: "span_of k w" by blast
    define m where "m = (lastc (Some d) v, w @ snd st')"
    have "\<exists>d' v'. s = d' # v' @ snd m \<and> is_digit d' \<and> list_all card_sep v'
       \<and> fst m = lastc (Some d') v'"
      using s u d v by (auto simp: m_def)
    then have m: "m \<in> set (ends card_group (p, s))" unfolding card_group_iff .
    have "fst st' = lastc (lastc (Some d) v) w"
      using f u by (simp add: lastc_Cons lastc_append)
    with w have "\<exists>u. w @ snd st' = u @ snd st' \<and> fst st' = lastc (lastc (Some d) v) u
       \<and> span_of k u" by blast
    then have "st' \<in> set (iter (ends card_group) k (lastc (Some d) v, w @ snd st'))"
      unfolding Suc.IH .
    with m show "st' \<in> set (iter (ends card_group) (Suc k) (p, s))"
      by (auto simp: m_def)
  qed
qed

lemma span_of_pos:
  "0 < k \<Longrightarrow> span_of k u \<longleftrightarrow>
     starts_with_digit u \<and> list_all (\<lambda>c. is_digit c \<or> card_sep c) u
     \<and> length (filter is_digit u) = k"
  by (simp add: span_of_def)

lemma card_span_iff: "card_span u \<longleftrightarrow> (\<exists>k. 13 \<le> k \<and> k \<le> 16 \<and> span_of k u)"
proof
  assume c: "card_span u"
  define k where "k = length (filter is_digit u)"
  from c have b: "13 \<le> k" "k \<le> 16" by (simp_all add: card_span_def k_def)
  then have "0 < k" by simp
  from span_of_pos [OF this, of u] c have "span_of k u" by (simp add: card_span_def k_def)
  with b show "\<exists>k. 13 \<le> k \<and> k \<le> 16 \<and> span_of k u" by blast
next
  assume "\<exists>k. 13 \<le> k \<and> k \<le> 16 \<and> span_of k u"
  then obtain k where b: "13 \<le> k" "k \<le> 16" and sp: "span_of k u" by blast
  from b have "0 < k" by simp
  from span_of_pos [OF this, of u] sp
  have "starts_with_digit u \<and> list_all (\<lambda>c. is_digit c \<or> card_sep c) u
     \<and> length (filter is_digit u) = k" by simp
  with b show "card_span u" by (simp add: card_span_def)
qed

lemma card_ends_iff:
  "st' \<in> set (ends card_rx (p, s)) \<longleftrightarrow>
     boundary (p, s) \<and> boundary st' \<and>
     (\<exists>u. s = u @ snd st' \<and> fst st' = lastc p u \<and> card_span u)"
proof -
  have "st' \<in> set (ends card_rx (p, s)) \<longleftrightarrow>
     boundary (p, s) \<and> boundary st' \<and> st' \<in> set (times (ends card_group) 13 16 (p, s))"
  proof -
    have rx: "card_rx = Cat Bound (Cat (Times 13 16 card_group) (Cat Bound Eps))"
      by (simp add: card_rx_def card_group_def seq_def)
    show ?thesis unfolding rx by (cases "boundary (p, s)") auto
  qed
  also have "st' \<in> set (times (ends card_group) 13 16 (p, s)) \<longleftrightarrow>
     (\<exists>k. 13 \<le> k \<and> k \<le> 16 \<and> st' \<in> set (iter (ends card_group) k (p, s)))"
    by (rule times_iff) simp
  also have "\<dots> \<longleftrightarrow> (\<exists>u. s = u @ snd st' \<and> fst st' = lastc p u \<and> card_span u)"
    unfolding iter_card_iff card_span_iff by blast
  finally show ?thesis .
qed




section \<open>Digit runs inside a word\<close>

text \<open>Where the pattern matches nowhere, the scan keeps every character.\<close>

lemma first_end_Nil: "first_end adv s [] = None"
  by (simp add: first_end_def)

lemma scan_free: "free r p s \<Longrightarrow> scan r adv p s = map Keep s"
proof (induction s arbitrary: p adv)
  case Nil
  then have "first_end adv [] (ends r (p, [])) = None" by (simp add: first_end_Nil)
  from scan_none [OF this] show ?case by simp
next
  case (Cons c cs)
  then have "first_end adv (c # cs) (ends r (p, c # cs)) = None" by (simp add: first_end_Nil)
  from scan_none [OF this] have "scan r adv p (c # cs) = Keep c # scan r False (Some c) cs"
    by simp
  moreover from Cons.prems have "free r (Some c) cs" by simp
  ultimately show ?case by (simp add: Cons.IH)
qed

lemma render_Keep: "concat (map (render tmpl \<circ> Keep) s) = s"
  by (induction s) simp_all

lemma sub_free:
  "free r None text \<Longrightarrow> parse_template repl = Inr tmpl \<Longrightarrow> sub r repl text = Inr text"
  by (simp add: sub_def scan_free render_Keep)

lemma hits_free: "free r None text \<Longrightarrow> hits r text = []"
  by (simp add: hits_def scan_free)

text \<open>
  A match of the card pattern opens before a digit that follows no word character and
  closes behind a digit that no word character follows.
\<close>

lemma digit_word: "is_digit c \<Longrightarrow> is_word c"
  by (simp add: is_word_def)

lemma card_sep_not_word: "card_sep c \<Longrightarrow> \<not> is_word c"
proof -
  have "\<not> is_word CHR '' ''" "\<not> is_word CHR ''-''" by code_simp+
  then show "card_sep c \<Longrightarrow> \<not> is_word c"
    by (auto simp: card_sep_def one_of_def)
qed

lemma card_start:
  assumes "ends card_rx (p, s) \<noteq> []"
  shows "\<exists>u s'. s = u @ s' \<and> card_span u \<and> boundary (p, s) \<and> boundary (lastc p u, s')"
proof -
  from assms obtain st' where "st' \<in> set (ends card_rx (p, s))" by (cases "ends card_rx (p, s)") auto
  then obtain u where "boundary (p, s)" "boundary st'" "s = u @ snd st'" "fst st' = lastc p u"
    "card_span u" unfolding card_ends_iff by blast
  then have "s = u @ snd st' \<and> card_span u \<and> boundary (p, s) \<and> boundary (lastc p u, snd st')"
    by (cases st') simp
  then show ?thesis by blast
qed

lemma blocked_free: "blocked p s \<Longrightarrow> free card_rx p s"
proof (induction s arbitrary: p)
  case Nil
  have "ends card_rx (p, []) = []"
  proof (rule ccontr)
    assume "ends card_rx (p, []) \<noteq> []"
    from card_start [OF this] show False by (auto simp: card_span_def starts_with_digit_def)
  qed
  then show ?case by simp
next
  case (Cons c cs)
  have "ends card_rx (p, c # cs) = []"
  proof (rule ccontr)
    assume "ends card_rx (p, c # cs) \<noteq> []"
    from card_start [OF this] obtain u s' where u: "c # cs = u @ s'" "card_span u"
      and b: "boundary (p, c # cs)" by blast
    from u have "is_digit c" by (cases u) (auto simp: card_span_def starts_with_digit_def)
    with Cons.prems have "word_before p" "is_word c" by (simp_all add: digit_word)
    with b show False by (simp add: boundary_def word_after_def)
  qed
  with Cons show ?case by simp
qed

lemma blocked_append: "blocked p (xs @ ys) \<longleftrightarrow> blocked p xs \<and> blocked (lastc p xs) ys"
  by (induction xs arbitrary: p) (simp_all add: lastc_def)

lemma blocked_no_digit: "list_all (\<lambda>c. \<not> is_digit c) xs \<Longrightarrow> blocked p xs"
  by (induction xs arbitrary: p) simp_all

lemma blocked_digits: "list_all is_digit ds \<Longrightarrow> word_before p \<Longrightarrow> blocked p ds"
  by (induction ds arbitrary: p) (simp_all add: word_before_def digit_word)

lemma followed_run:
  "followed (u @ s') \<Longrightarrow> starts_with_digit u \<Longrightarrow> list_all (\<lambda>c. is_digit c \<or> card_sep c) u \<Longrightarrow>
   is_digit (last u) \<and> word_after s'"
proof (induction u)
  case Nil
  then show ?case by (simp add: starts_with_digit_def)
next
  case (Cons d u)
  show ?case
  proof (cases u)
    case Nil
    with Cons.prems show ?thesis by (simp add: starts_with_digit_def)
  next
    case (Cons e v)
    from Cons.prems(1,2) Cons have "is_word e"
      by (simp add: starts_with_digit_def word_after_def)
    moreover from Cons.prems(3) Cons have "is_digit e \<or> card_sep e" by simp
    ultimately have "is_digit e" using card_sep_not_word by blast
    with Cons have "starts_with_digit u" by (simp add: starts_with_digit_def)
    moreover from Cons.prems have "followed (u @ s')" "list_all (\<lambda>c. is_digit c \<or> card_sep c) u"
      by simp_all
    ultimately have "is_digit (last u) \<and> word_after s'" using Cons.IH by blast
    with Cons show ?thesis by simp
  qed
qed

lemma followed_no_match: "followed s \<Longrightarrow> ends card_rx (p, s) = []"
proof (rule ccontr)
  assume f: "followed s" and "ends card_rx (p, s) \<noteq> []"
  from card_start [OF this(2)] obtain u s' where u: "s = u @ s'" "card_span u"
    and b: "boundary (lastc p u, s')" by blast
  from u(2) have sd: "starts_with_digit u" and al: "list_all (\<lambda>c. is_digit c \<or> card_sep c) u"
    by (simp_all add: card_span_def)
  from followed_run [OF f [unfolded u(1)] sd al] have "is_digit (last u)" "word_after s'"
    by simp_all
  moreover from sd have "u \<noteq> []" by (auto simp: starts_with_digit_def)
  ultimately have "word_before (lastc p u)" "word_after s'"
    by (simp_all add: lastc_def word_before_def digit_word)
  with b show False by (simp add: boundary_def)
qed

lemma followed_free: "followed s \<Longrightarrow> free card_rx p s"
  by (induction s arbitrary: p) (simp_all add: followed_no_match del: followed.simps, simp_all)

lemma followed_no_digit: "list_all (\<lambda>c. \<not> is_digit c) xs \<Longrightarrow> followed ys \<Longrightarrow> followed (xs @ ys)"
  by (induction xs) simp_all

lemma followed_digits:
  "list_all is_digit ds \<Longrightarrow> word_after post \<Longrightarrow> followed post \<Longrightarrow> followed (ds @ post)"
proof (induction ds)
  case Nil
  then show ?case by simp
next
  case (Cons d ds)
  have "word_after (ds @ post)"
  proof (cases ds)
    case Nil
    with Cons.prems show ?thesis by simp
  next
    case (Cons e es)
    with Cons.prems(1) show ?thesis by (simp add: word_after_def digit_word)
  qed
  with Cons show ?case by simp
qed

lemma embedded_free:
  assumes ds: "list_all is_digit ds"
    and pre: "list_all (\<lambda>c. \<not> is_digit c) pre"
    and post: "list_all (\<lambda>c. \<not> is_digit c) post"
    and adj: "word_before (lastc None pre) \<or> word_after post"
  shows "free card_rx None (pre @ ds @ post)"
  using adj
proof
  assume w: "word_before (lastc None pre)"
  have "blocked None (pre @ ds @ post)"
    unfolding blocked_append
    using blocked_no_digit [OF pre] blocked_digits [OF ds w] blocked_no_digit [OF post]
    by simp
  then show ?thesis by (rule blocked_free)
next
  assume w: "word_after post"
  have "followed post" using followed_no_digit [OF post, of "[]"] by simp
  from followed_digits [OF ds w this] have "followed (ds @ post)" .
  from followed_no_digit [OF pre this] have "followed (pre @ ds @ post)" .
  then show ?thesis by (rule followed_free)
qed

lemma card_only_sanitize:
  "card_only config \<Longrightarrow> sanitize_text text config = sub card_rx (redact_char config) text"
  by (simp add: card_only_def sanitize_text_def split: if_splits)

text \<open>
  Claim C8. A run of digits, of any length and so of 13 to 16 digits, that touches a word
  character (a letter, a digit or the underscore) on its left or on its right, in a text
  with no other digit, is not matched by the card pattern: with the credit-card category
  alone and a well-formed marker, \<open>sanitize_text\<close> returns the text unchanged.
\<close>

theorem embedded_run_unchanged:
  assumes "list_all is_digit ds"
    and "list_all (\<lambda>c. \<not> is_digit c) pre"
    and "list_all (\<lambda>c. \<not> is_digit c) post"
    and "word_before (lastc None pre) \<or> word_after post"
    and "card_only config"
    and "parse_template (redact_char config) = Inr tmpl"
  shows "hits card_rx (pre @ ds @ post) = []
    \<and> sanitize_text (pre @ ds @ post) config = Inr (pre @ ds @ post)"
proof -
  have "free card_rx None (pre @ ds @ post)"
    using assms(1-4) by (rule embedded_free)
  with assms(5,6) show ?thesis
    by (simp add: hits_free sub_free card_only_sanitize)
qed

theorem embedded_run_unchanged_witness:
  "hits card_rx ''abc123456789012345xyz'' = []
   \<and> sanitize_text ''abc123456789012345xyz''
       (example_config\<lparr>remove_ssn := False, remove_phone := False, remove_email := False\<rparr>)
     = Inr ''abc123456789012345xyz''"
proof -
  have "list_all is_digit ''123456789012345''"
    "list_all (\<lambda>c. \<not> is_digit c) ''abc''" "list_all (\<lambda>c. \<not> is_digit c) ''xyz''"
    "word_before (lastc None ''abc'') \<or> word_after ''xyz''"
    "card_only (example_config\<lparr>remove_ssn := False, remove_phone := False,
       remove_email := False\<rparr>)"
    by code_simp+
  moreover have "parse_template (redact_char (example_config\<lparr>remove_ssn := False,
       remove_phone := False, remove_email := False\<rparr>)) = Inr (map Lit ''<REDACTED>'')"
    by code_simp
  ultimately show ?thesis
    using embedded_run_unchanged [of "''123456789012345''" "''abc''" "''xyz''"
        "example_config\<lparr>remove_ssn := False, remove_phone := False, remove_email := False\<rparr>"
        "map Lit ''<REDACTED>''"]
    by simp
qed

section \<open>A second run\<close>

text \<open>
  A match is a matter of the span and of the two characters around it: the pattern matches
  the same span wherever the characters before and after it are word characters or not in
  the same way.
\<close>

lemma ends_matches:
  "st' \<in> set (ends r (p, s)) \<longleftrightarrow>
     (\<exists>u. s = u @ snd st' \<and> fst st' = lastc p u \<and> matches r p u (snd st'))"
proof
  assume m: "st' \<in> set (ends r (p, s))"
  then have "reaches (p, s) st'" by (rule ends_reaches)
  then obtain u where u: "s = u @ snd st'" "fst st' = lastc p u"
    unfolding reaches_def by auto
  with m have "(lastc p u, snd st') \<in> set (ends r (p, u @ snd st'))"
    by (metis prod.collapse)
  then have "matches r p u (snd st')"
    unfolding matches_def .
  with u show "\<exists>u. s = u @ snd st' \<and> fst st' = lastc p u \<and> matches r p u (snd st')" by blast
next
  assume "\<exists>u. s = u @ snd st' \<and> fst st' = lastc p u \<and> matches r p u (snd st')"
  then show "st' \<in> set (ends r (p, s))"
    unfolding matches_def by (cases st') auto
qed

lemma matches_Eps: "matches Eps p u t \<longleftrightarrow> u = []"
  by (auto simp: matches_def lastc_def)

lemma matches_Bound: "matches Bound p u t \<longleftrightarrow> u = [] \<and> boundary (p, t)"
  by (auto simp: matches_def lastc_def)

lemma matches_Atom: "matches (Atom P) p u t \<longleftrightarrow> (\<exists>c. u = [c] \<and> P c)"
proof (cases u)
  case Nil
  then show ?thesis by (cases t) (auto simp: matches_def lastc_def)
next
  case (Cons c v)
  then show ?thesis by (auto simp: matches_def lastc_def)
qed

lemma matches_Cat:
  "matches (Cat a b) p u t \<longleftrightarrow>
     (\<exists>u1 u2. u = u1 @ u2 \<and> matches a p u1 (u2 @ t) \<and> matches b (lastc p u1) u2 t)"
proof
  assume "matches (Cat a b) p u t"
  then obtain m where m: "m \<in> set (ends a (p, u @ t))"
    and e: "(lastc p u, t) \<in> set (ends b m)"
    unfolding matches_def by auto
  from m obtain u1 where u1: "u @ t = u1 @ snd m" "fst m = lastc p u1" "matches a p u1 (snd m)"
    unfolding ends_matches by blast
  from e have "(lastc p u, t) \<in> set (ends b (fst m, snd m))" by simp
  then obtain u2 where u2: "snd m = u2 @ t" "matches b (fst m) u2 t"
    unfolding ends_matches by auto
  from u1(1) u2(1) have "u = u1 @ u2" by simp
  with u1 u2 show "\<exists>u1 u2. u = u1 @ u2 \<and> matches a p u1 (u2 @ t) \<and> matches b (lastc p u1) u2 t"
    by auto
next
  assume "\<exists>u1 u2. u = u1 @ u2 \<and> matches a p u1 (u2 @ t) \<and> matches b (lastc p u1) u2 t"
  then obtain u1 u2 where u: "u = u1 @ u2" and a: "matches a p u1 (u2 @ t)"
    and b: "matches b (lastc p u1) u2 t" by blast
  from a have "(lastc p u1, u2 @ t) \<in> set (ends a (p, u @ t))"
    by (simp add: matches_def u)
  moreover from b have "(lastc p u, t) \<in> set (ends b (lastc p u1, u2 @ t))"
    by (simp add: matches_def u lastc_append)
  ultimately show "matches (Cat a b) p u t"
    unfolding matches_def by auto
qed

lemma many_iff:
  "st' \<in> set (many g P lo hi (p, s)) \<longleftrightarrow>
     (\<exists>u. s = u @ snd st' \<and> fst st' = lastc p u \<and> list_all P u \<and> lo \<le> length u
        \<and> (case hi of None \<Rightarrow> True | Some h \<Rightarrow> length u \<le> h))"
proof (induction s arbitrary: p lo hi)
  case Nil
  show ?case by (cases st') (auto simp: lastc_def split: option.splits)
next
  case (Cons c cs)
  let ?hi = "map_option (\<lambda>h. h - 1) hi"
  have more: "st' \<in> set (many g P (lo - 1) ?hi (Some c, cs)) \<longleftrightarrow>
     (\<exists>u. cs = u @ snd st' \<and> fst st' = lastc (Some c) u \<and> list_all P u \<and> lo - 1 \<le> length u
        \<and> (case ?hi of None \<Rightarrow> True | Some h \<Rightarrow> length u \<le> h))"
    by (rule Cons.IH)
  have "st' \<in> set (many g P lo hi (p, c # cs)) \<longleftrightarrow>
    (lo = 0 \<and> st' = (p, c # cs))
    \<or> (P c \<and> hi \<noteq> Some 0 \<and> st' \<in> set (many g P (lo - 1) ?hi (Some c, cs)))"
    by (auto simp: Let_def)
  also have "\<dots> \<longleftrightarrow> (\<exists>u. c # cs = u @ snd st' \<and> fst st' = lastc p u \<and> list_all P u
      \<and> lo \<le> length u \<and> (case hi of None \<Rightarrow> True | Some h \<Rightarrow> length u \<le> h))"
    (is "?L \<longleftrightarrow> ?R")
  proof
    assume ?L
    then show ?R
    proof
      assume "lo = 0 \<and> st' = (p, c # cs)"
      then have "c # cs = [] @ snd st' \<and> fst st' = lastc p [] \<and> list_all P []
        \<and> lo \<le> length ([]::string)
        \<and> (case hi of None \<Rightarrow> True | Some h \<Rightarrow> length ([]::string) \<le> h)"
        by (simp add: lastc_def split: option.splits)
      then show ?R by blast
    next
      assume a: "P c \<and> hi \<noteq> Some 0 \<and> st' \<in> set (many g P (lo - 1) ?hi (Some c, cs))"
      with more obtain u where u: "cs = u @ snd st'" "fst st' = lastc (Some c) u"
        "list_all P u" "lo - 1 \<le> length u"
        "case ?hi of None \<Rightarrow> True | Some h \<Rightarrow> length u \<le> h" by blast
      from a u(5) have "case hi of None \<Rightarrow> True | Some h \<Rightarrow> length (c # u) \<le> h"
        by (cases hi) auto
      moreover from u(4) have "lo \<le> length (c # u)" by simp
      moreover from u(2) have "fst st' = lastc p (c # u)" by (simp add: lastc_def)
      moreover from a u(1,3) have "c # cs = (c # u) @ snd st'" "list_all P (c # u)"
        by simp_all
      ultimately have "c # cs = (c # u) @ snd st' \<and> fst st' = lastc p (c # u)
        \<and> list_all P (c # u) \<and> lo \<le> length (c # u)
        \<and> (case hi of None \<Rightarrow> True | Some h \<Rightarrow> length (c # u) \<le> h)"
        by blast
      then show ?R by blast
    qed
  next
    assume ?R
    then obtain u where u: "c # cs = u @ snd st'" "fst st' = lastc p u" "list_all P u"
      "lo \<le> length u" "case hi of None \<Rightarrow> True | Some h \<Rightarrow> length u \<le> h" by blast
    show ?L
    proof (cases u)
      case Nil
      with u have "lo = 0 \<and> st' = (p, c # cs)" by (cases st') (simp add: lastc_def)
      then show ?thesis ..
    next
      case (Cons d v)
      with u have 1: "P c" "cs = v @ snd st'" "fst st' = lastc (Some c) v" "list_all P v"
        "lo - 1 \<le> length v"
        by (auto simp: lastc_def)
      from u(5) Cons have 2: "hi \<noteq> Some 0"
        "case ?hi of None \<Rightarrow> True | Some h \<Rightarrow> length v \<le> h"
        by (cases hi; auto)+
      from 1 2 more have "st' \<in> set (many g P (lo - 1) ?hi (Some c, cs))" by blast
      with 1 2 show ?thesis by blast
    qed
  qed
  finally show ?case .
qed

lemma matches_Many:
  "matches (Many g lo hi P) p u t \<longleftrightarrow>
     list_all P u \<and> lo \<le> length u \<and> (case hi of None \<Rightarrow> True | Some h \<Rightarrow> length u \<le> h)"
  unfolding matches_def ends.simps many_iff by auto

lemma matches_Times_0: "matches (Times lo 0 r) p u t \<longleftrightarrow> u = []"
  by (auto simp: matches_def lastc_def)

lemma matches_Times_Suc:
  "matches (Times lo (Suc h) r) p u t \<longleftrightarrow>
     (lo = 0 \<and> u = [])
     \<or> (\<exists>u1 u2. u = u1 @ u2 \<and> matches r p u1 (u2 @ t)
          \<and> matches (Times (lo - 1) h r) (lastc p u1) u2 t)"
proof -
  have "matches (Times lo (Suc h) r) p u t \<longleftrightarrow>
      (lo = 0 \<and> u = []) \<or> matches (Cat r (Times (lo - 1) h r)) p u t"
    by (auto simp: matches_def lastc_def)
  then show ?thesis by (simp only: matches_Cat)
qed

lemma word_after_append:
  "word_after (u @ t) = (if u = [] then word_after t else is_word (hd u))"
  by (cases u) (simp_all add: word_after_def)

lemma word_before_lastc:
  "word_before (lastc p u) = (if u = [] then word_before p else is_word (last u))"
  by (simp add: lastc_def word_before_def)

lemma times_local:
  assumes r: "\<And>p u t q t'. matches r p u t \<Longrightarrow> word_before q = word_before p \<Longrightarrow>
    word_after t' = word_after t \<Longrightarrow> matches r q u t'"
  shows "matches (Times lo hi r) p u t \<Longrightarrow> word_before q = word_before p \<Longrightarrow>
    word_after t' = word_after t \<Longrightarrow> matches (Times lo hi r) q u t'"
proof (induction hi arbitrary: lo p q u)
  case 0
  then show ?case by (simp add: matches_Times_0)
next
  case (Suc h)
  from Suc.prems(1) consider (stop) "lo = 0" "u = []"
    | (more) u1 u2 where "u = u1 @ u2" "matches r p u1 (u2 @ t)"
        "matches (Times (lo - 1) h r) (lastc p u1) u2 t"
    unfolding matches_Times_Suc by blast
  then show ?case
  proof cases
    case stop
    then show ?thesis by (simp add: matches_Times_Suc)
  next
    case more
    have "word_after (u2 @ t') = word_after (u2 @ t)"
      by (simp add: word_after_append Suc.prems(3))
    from r [OF more(2) Suc.prems(2) this] have a: "matches r q u1 (u2 @ t')" .
    have "word_before (lastc q u1) = word_before (lastc p u1)"
      by (simp add: word_before_lastc Suc.prems(2))
    from Suc.IH [OF more(3) this Suc.prems(3)]
    have b: "matches (Times (lo - 1) h r) (lastc q u1) u2 t'" .
    from more(1) a b show ?thesis unfolding matches_Times_Suc by blast
  qed
qed

lemma matches_local:
  "matches r p u t \<Longrightarrow> word_before q = word_before p \<Longrightarrow> word_after t' = word_after t \<Longrightarrow>
   matches r q u t'"
proof (induction r arbitrary: p q u t t')
  case Eps
  then show ?case by (simp add: matches_Eps)
next
  case (Atom P)
  then show ?case by (simp add: matches_Atom)
next
  case Bound
  then show ?case by (simp add: matches_Bound boundary_def)
next
  case (Cat a b)
  from Cat.prems(1) obtain u1 u2 where u: "u = u1 @ u2" and a: "matches a p u1 (u2 @ t)"
    and b: "matches b (lastc p u1) u2 t"
    unfolding matches_Cat by blast
  have "word_after (u2 @ t') = word_after (u2 @ t)"
    by (simp add: word_after_append Cat.prems(3))
  from Cat.IH(1) [OF a Cat.prems(2) this] have a': "matches a q u1 (u2 @ t')" .
  have "word_before (lastc q u1) = word_before (lastc p u1)"
    by (simp add: word_before_lastc Cat.prems(2))
  from Cat.IH(2) [OF b this Cat.prems(3)] have b': "matches b (lastc q u1) u2 t'" .
  from u a' b' show ?case unfolding matches_Cat by blast
next
  case (Many g lo hi P)
  then show ?case by (simp add: matches_Many)
next
  case (Times lo hi r)
  show ?case
    by (rule times_local [OF _ Times.prems]) (rule Times.IH)
qed

lemma times_consumes:
  assumes r: "\<And>p u t. matches r p u t \<Longrightarrow> c \<in> set u \<Longrightarrow> consumes r c"
  shows "matches (Times lo hi r) p u t \<Longrightarrow> c \<in> set u \<Longrightarrow> consumes r c"
proof (induction hi arbitrary: lo p u)
  case 0
  then show ?case by (simp add: matches_Times_0)
next
  case (Suc h)
  from Suc.prems(1) consider (stop) "lo = 0" "u = []"
    | (more) u1 u2 where "u = u1 @ u2" "matches r p u1 (u2 @ t)"
        "matches (Times (lo - 1) h r) (lastc p u1) u2 t"
    unfolding matches_Times_Suc by blast
  then show ?case
  proof cases
    case stop
    with Suc.prems(2) show ?thesis by simp
  next
    case more
    from Suc.prems(2) more(1) have "c \<in> set u1 \<or> c \<in> set u2" by simp
    then show ?thesis
    proof
      assume "c \<in> set u1"
      with more(2) show ?thesis by (rule r)
    next
      assume "c \<in> set u2"
      with more(3) show ?thesis by (rule Suc.IH)
    qed
  qed
qed

lemma matches_consumes: "matches r p u t \<Longrightarrow> c \<in> set u \<Longrightarrow> consumes r c"
proof (induction r arbitrary: p u t)
  case Eps
  then show ?case by (simp add: matches_Eps)
next
  case (Atom P)
  then show ?case by (auto simp: matches_Atom)
next
  case Bound
  then show ?case by (simp add: matches_Bound)
next
  case (Cat a b)
  from Cat.prems(1) obtain u1 u2 where u: "u = u1 @ u2" and a: "matches a p u1 (u2 @ t)"
    and b: "matches b (lastc p u1) u2 t"
    unfolding matches_Cat by blast
  from Cat.prems(2) u have "c \<in> set u1 \<or> c \<in> set u2" by simp
  then show ?case
  proof
    assume "c \<in> set u1"
    with a have "consumes a c" by (rule Cat.IH(1))
    then show ?thesis by simp
  next
    assume "c \<in> set u2"
    with b have "consumes b c" by (rule Cat.IH(2))
    then show ?thesis by simp
  qed
next
  case (Many g lo hi P)
  then show ?case by (simp add: matches_Many list_all_iff)
next
  case (Times lo hi r)
  have "consumes r c"
    using Times.prems by (rule times_consumes [rotated]) (rule Times.IH)
  then show ?case by simp
qed

lemma matches_keyed: "keyed r \<Longrightarrow> matches r p u t \<Longrightarrow> \<exists>c\<in>set u. key c"
proof (induction r arbitrary: p u t)
  case Eps
  then show ?case by simp
next
  case (Atom P)
  then show ?case by (auto simp: matches_Atom)
next
  case Bound
  then show ?case by simp
next
  case (Cat a b)
  from Cat.prems(2) obtain u1 u2 where u: "u = u1 @ u2" and a: "matches a p u1 (u2 @ t)"
    and b: "matches b (lastc p u1) u2 t"
    unfolding matches_Cat by blast
  from Cat.prems(1) have "keyed a \<or> keyed b" by simp
  then show ?case
  proof
    assume "keyed a"
    from Cat.IH(1) [OF this a] u show ?thesis by auto
  next
    assume "keyed b"
    from Cat.IH(2) [OF this b] u show ?thesis by auto
  qed
next
  case (Many g lo hi P)
  from Many.prems have k: "\<And>c. P c \<Longrightarrow> key c" and lo: "0 < lo"
    and u: "list_all P u" "lo \<le> length u"
    by (simp_all add: matches_Many)
  from lo u(2) obtain c v where "u = c # v" by (cases u) auto
  with u(1) k show ?case by auto
next
  case (Times lo hi r)
  from Times.prems(1) obtain h where hi: "hi = Suc h" and lo: "0 < lo" and k: "keyed r"
    by (cases hi) auto
  from Times.prems(2) lo obtain u1 u2 where u: "u = u1 @ u2" and a: "matches r p u1 (u2 @ t)"
    unfolding hi matches_Times_Suc by auto
  from Times.IH [OF k a] u show ?case by auto
qed

lemma opens_boundary: "opens r \<Longrightarrow> matches r p u t \<Longrightarrow> boundary (p, u @ t)"
proof (induction r arbitrary: u t)
  case (Cat a b)
  from Cat.prems(2) obtain u1 u2 where u: "u = u1 @ u2" and a: "matches a p u1 (u2 @ t)"
    unfolding matches_Cat by blast
  from Cat.prems(1) have "opens a" by simp
  from Cat.IH(1) [OF this a] u show ?case by simp
qed (simp_all add: matches_Bound)

lemma closes_boundary: "closes r \<Longrightarrow> matches r p u t \<Longrightarrow> boundary (lastc p u, t)"
proof (induction r arbitrary: p u t)
  case (Cat a b)
  from Cat.prems(2) obtain u1 u2 where u: "u = u1 @ u2" and a: "matches a p u1 (u2 @ t)"
    and b: "matches b (lastc p u1) u2 t"
    unfolding matches_Cat by blast
  show ?case
  proof (cases "b = Eps")
    case True
    with b have u2: "u2 = []" by (simp add: matches_Eps)
    from True Cat.prems(1) have "closes a" by simp
    from Cat.IH(1) [OF this a] u u2 show ?thesis by simp
  next
    case False
    with Cat.prems(1) have "closes b" by (cases b) simp_all
    from Cat.IH(2) [OF this b] u show ?thesis by (simp add: lastc_append)
  qed
qed (simp_all add: matches_Bound lastc_def)

lemma patterns_keyed: "keyed (pattern cat)"
  by (cases cat)
    (simp_all add: ssn_rx_def phone_rx_def email_rx_def card_rx_def seq_def key_def one_of_def)

lemma patterns_open: "opens (pattern cat)"
  by (cases cat) (simp_all add: ssn_rx_def phone_rx_def email_rx_def card_rx_def seq_def)

lemma patterns_close: "closes (pattern cat)"
  by (cases cat) (simp_all add: ssn_rx_def phone_rx_def email_rx_def card_rx_def seq_def)

text \<open>
  No match lies across or inside a marker that suits the pattern, and a match in the text
  between two markers was a match in the text before the replacement: where a match was
  replaced there was a word boundary on each side of it.
\<close>

lemma keyed_nonempty:"keyed r \<Longrightarrow> matches r p u t \<Longrightarrow> u \<noteq> []"
  using matches_keyed by fastforce

lemma keyed_no_end: "keyed r \<Longrightarrow> ends r (q, []) = []"
proof (rule ccontr)
  assume k: "keyed r" and "ends r (q, []) \<noteq> []"
  then obtain st' where "st' \<in> set (ends r (q, []))" by (cases "ends r (q, [])") auto
  then obtain u where "[] = u @ snd st'" "matches r q u (snd st')"
    unfolding ends_matches by blast
  with keyed_nonempty [OF k] show False by auto
qed

lemma prefix_before:
  assumes e: "k @ m @ y = u @ t" and m: "m \<noteq> []" and h: "hd m \<notin> set u"
  shows "\<exists>k'. k = u @ k' \<and> t = k' @ m @ y"
proof -
  from e obtain us where "(k = u @ us \<and> us @ m @ y = t) \<or> (k @ us = u \<and> m @ y = us @ t)"
    unfolding append_eq_append_conv2 by blast
  then show ?thesis
  proof
    assume "k = u @ us \<and> us @ m @ y = t"
    then show ?thesis by blast
  next
    assume a: "k @ us = u \<and> m @ y = us @ t"
    show ?thesis
    proof (cases us)
      case Nil
      with a show ?thesis by simp
    next
      case (Cons x xs)
      from m obtain c cs where "m = c # cs" by (cases m) auto
      with a Cons have "hd m = x" by simp
      with a Cons have "hd m \<in> set u" by auto
      with h show ?thesis by simp
    qed
  qed
qed

lemma prefix_inside:
  assumes e: "x2 @ y = u @ t" and x: "x2 \<noteq> []" and l: "last x2 \<notin> set u"
  shows "\<exists>w. x2 = u @ w"
proof -
  from e obtain us where "(x2 = u @ us \<and> us @ y = t) \<or> (x2 @ us = u \<and> y = us @ t)"
    unfolding append_eq_append_conv2 by blast
  then show ?thesis
  proof
    assume "x2 = u @ us \<and> us @ y = t"
    then show ?thesis by blast
  next
    assume "x2 @ us = u \<and> y = us @ t"
    with x have "last x2 \<in> set u" by auto
    with l show ?thesis by simp
  qed
qed

lemma no_match_in_marker:
  assumes s: "suits r m" and m: "m = x1 @ x2" and x: "x2 \<noteq> []"
  shows "ends r (q, x2 @ y) = []"
proof (rule ccontr)
  assume "ends r (q, x2 @ y) \<noteq> []"
  then obtain st' where "st' \<in> set (ends r (q, x2 @ y))"
    by (cases "ends r (q, x2 @ y)") auto
  then obtain u where u: "x2 @ y = u @ snd st'" and mt: "matches r q u (snd st')"
    unfolding ends_matches by blast
  from s m x have "\<not> consumes r (last x2)" by (simp add: suits_def)
  with matches_consumes [OF mt] have "last x2 \<notin> set u" by blast
  from prefix_inside [OF u x this] obtain w where "x2 = u @ w" by blast
  with m have "set u \<subseteq> set m" by auto
  moreover from s have "keyed r" by (simp add: suits_def)
  from matches_keyed [OF this mt] obtain c where "c \<in> set u" "key c" by blast
  ultimately show False using s by (auto simp: suits_def)
qed

lemma free_appendI:
  "(\<And>x1 x2 q'. xs = x1 @ x2 \<Longrightarrow> x2 \<noteq> [] \<Longrightarrow> ends r (q', x2 @ y) = []) \<Longrightarrow>
   free r (lastc q xs) y \<Longrightarrow> free r q (xs @ y)"
proof (induction xs arbitrary: q)
  case Nil
  then show ?case by (simp add: lastc_def)
next
  case (Cons c xs)
  have 1: "ends r (q, (c # xs) @ y) = []"
    by (rule Cons.prems(1) [of "[]"]) simp_all
  have 2: "free r (Some c) (xs @ y)"
  proof (rule Cons.IH)
    fix x1 x2 q'
    assume "xs = x1 @ x2" "x2 \<noteq> []"
    then show "ends r (q', x2 @ y) = []"
      using Cons.prems(1) [of "c # x1" x2 q'] by simp
  next
    from Cons.prems(2) show "free r (lastc (Some c) xs) y" by (simp only: lastc_Cons)
  qed
  from 1 2 show ?case by simp
qed

lemma free_marker:
  assumes s: "suits r m" and f: "free r (Some (last m)) y"
  shows "free r q (m @ y)"
proof (rule free_appendI)
  fix x1 x2 q'
  assume "m = x1 @ x2" "x2 \<noteq> []"
  with s show "ends r (q', x2 @ y) = []" by (rule no_match_in_marker)
next
  from s have "m \<noteq> []" by (simp add: suits_def)
  with f show "free r (lastc q m) y" by (simp add: lastc_def)
qed

lemma free_drop: "free r p (u @ s') \<Longrightarrow> free r (lastc p u) s'"
proof (induction u arbitrary: p)
  case Nil
  then show ?case by (simp add: lastc_def)
next
  case (Cons c u)
  from Cons.prems have "free r (Some c) (u @ s')" by simp
  then have "free r (lastc (Some c) u) s'" by (rule Cons.IH)
  then show ?case by (simp only: lastc_Cons)
qed

lemma free_head: "free r p s \<Longrightarrow> ends r (p, s) = []"
  by (cases s) simp_all

lemma replace_all_free: "free r p s \<Longrightarrow> replace_all r f p s = s"
  by (induction s arbitrary: p) (simp_all add: match_at_def)

lemma relocate:
  assumes m: "matches r q u t" and o: "opens r" and u: "u \<noteq> []"
    and l: "word_before q = word_before p \<or> boundary (p, u @ t')"
    and a: "word_after t' = word_after t"
  shows "matches r p u t'"
proof -
  from opens_boundary [OF o m] u have 1: "word_before q \<noteq> is_word (hd u)"
    by (simp add: boundary_def word_after_append)
  from l have "word_before p = word_before q"
  proof
    assume "word_before q = word_before p"
    then show ?thesis by simp
  next
    assume "boundary (p, u @ t')"
    with u have "word_before p \<noteq> is_word (hd u)"
      by (simp add: boundary_def word_after_append)
    with 1 show ?thesis by blast
  qed
  from matches_local [OF m this a] show ?thesis .
qed

lemma transfer:
  assumes s: "suits r m" and o: "opens r'"
  shows "matches r q u t \<Longrightarrow> k @ replace_all r' (\<lambda>h. m) (lastc p k) s1 = u @ t \<Longrightarrow>
    word_before q = word_before p \<or> boundary (p, k @ s1) \<Longrightarrow>
    \<exists>t'. k @ s1 = u @ t' \<and> matches r p u t'"
proof (induction "length s1" arbitrary: s1 k rule: less_induct)
  case less
  note mt = less.prems(1) and eq = less.prems(2) and ctx = less.prems(3)
  from s have kr: "keyed r" and op: "opens r" and cl: "closes r" and mne: "m \<noteq> []"
    and hd: "\<not> consumes r (hd m)"
    by (simp_all add: suits_def)
  from keyed_nonempty [OF kr mt] have une: "u \<noteq> []" .
  from matches_consumes [OF mt] hd have hdu: "hd m \<notin> set u" by blast
  have keep: "\<exists>t'. k @ s1 = u @ t' \<and> matches r p u t'"
    if c: "s1 = c # cs"
      and r: "replace_all r' (\<lambda>h. m) (lastc p k) s1 = c # replace_all r' (\<lambda>h. m) (Some c) cs"
    for c cs
  proof -
    have 1: "length cs < length s1" using c by simp
    have 2: "(k @ [c]) @ replace_all r' (\<lambda>h. m) (lastc p (k @ [c])) cs = u @ t"
      using eq r by (simp add: lastc_def)
    have 3: "word_before q = word_before p \<or> boundary (p, (k @ [c]) @ cs)"
      using ctx c by simp
    from less.hyps [OF 1 mt 2 3] c show ?thesis by simp
  qed
  show ?case
  proof (cases s1)
    case Nil
    with eq have "k = u @ t" by simp
    moreover from this ctx Nil have "word_before q = word_before p \<or> boundary (p, u @ t)"
      by simp
    from relocate [OF mt op une this refl] have "matches r p u t" .
    ultimately show ?thesis using Nil by simp
  next
    case (Cons c cs)
    show ?thesis
    proof (cases "ends r' (lastc p k, s1)")
      case Nil
      with Cons have "replace_all r' (\<lambda>h. m) (lastc p k) s1
          = c # replace_all r' (\<lambda>h. m) (Some c) cs"
        by (simp add: match_at_def)
      with Cons show ?thesis by (rule keep)
    next
      case (Cons st rest)
      obtain p' s' where st: "st = (p', s')" by (cases st)
      show ?thesis
      proof (cases "length s' < length s1")
        case False
        with Cons st \<open>s1 = c # cs\<close> have "replace_all r' (\<lambda>h. m) (lastc p k) s1
            = c # replace_all r' (\<lambda>h. m) (Some c) cs"
          by (simp add: match_at_def)
        with \<open>s1 = c # cs\<close> show ?thesis by (rule keep)
      next
        case True
        from replace_all_hit [OF Cons [unfolded st] True, of "\<lambda>h. m"] eq
        have "k @ m @ replace_all r' (\<lambda>h. m) p' s' = u @ t" by simp
        from prefix_before [OF this mne hdu] obtain k' where k': "k = u @ k'"
          and t: "t = k' @ m @ replace_all r' (\<lambda>h. m) p' s'" by blast
        have b1: "boundary (lastc p k, s1)"
        proof -
          from Cons have "st \<in> set (ends r' (lastc p k, s1))" by simp
          then obtain h where "s1 = h @ snd st" "matches r' (lastc p k) h (snd st)"
            unfolding ends_matches by blast
          with opens_boundary [OF o] show ?thesis by fastforce
        qed
        have wa: "word_after (k' @ s1) = word_after t"
        proof (cases k')
          case Nil
          from closes_boundary [OF cl mt] une
          have "word_before (Some (last u)) \<noteq> word_after t"
            by (simp add: boundary_def lastc_def)
          moreover from b1 k' Nil une have "word_before (Some (last u)) \<noteq> word_after s1"
            by (simp add: boundary_def lastc_def)
          ultimately show ?thesis using Nil by auto
        next
          case (Cons x xs)
          with t show ?thesis by (simp add: word_after_def)
        qed
        from ctx k' have "word_before q = word_before p \<or> boundary (p, u @ k' @ s1)" by simp
        from relocate [OF mt op une this wa] have "matches r p u (k' @ s1)" .
        with k' show ?thesis by simp
      qed
    qed
  qed
qed

lemma replace_free:
  assumes s: "suits r m" and a: "advances r'" and o: "opens r'" and c: "closes r'"
  shows "r = r' \<or> free r p s \<Longrightarrow> word_before q = word_before p \<or> boundary (p, s) \<Longrightarrow>
    free r q (replace_all r' (\<lambda>h. m) p s)"
proof (induction "length s" arbitrary: s p q rule: less_induct)
  case less
  note fr = less.prems(1) and ctx = less.prems(2)
  from s have kr: "keyed r" by (simp add: suits_def)
  show ?case
  proof (cases s)
    case Nil
    then show ?thesis by (simp add: keyed_no_end [OF kr])
  next
    case (Cons x xs)
    show ?thesis
    proof (cases "ends r' (p, s)")
      case Nil
      from Nil Cons have r: "replace_all r' (\<lambda>h. m) p s
          = x # replace_all r' (\<lambda>h. m) (Some x) xs"
        by (simp add: match_at_def)
      have "r = r' \<or> free r (Some x) xs" using fr Cons by auto
      moreover have "length xs < length s" using Cons by simp
      ultimately have rest: "free r (Some x) (replace_all r' (\<lambda>h. m) (Some x) xs)"
        by (intro less.hyps) simp_all
      have head: "ends r (q, replace_all r' (\<lambda>h. m) p s) = []"
      proof (rule ccontr)
        assume "ends r (q, replace_all r' (\<lambda>h. m) p s) \<noteq> []"
        then obtain st' where "st' \<in> set (ends r (q, replace_all r' (\<lambda>h. m) p s))"
          by (cases "ends r (q, replace_all r' (\<lambda>h. m) p s)") auto
        then obtain u where u: "replace_all r' (\<lambda>h. m) p s = u @ snd st'"
          and mt: "matches r q u (snd st')"
          unfolding ends_matches by blast
        have "[] @ replace_all r' (\<lambda>h. m) (lastc p []) s = u @ snd st'"
          using u by (simp add: lastc_def)
        moreover have "word_before q = word_before p \<or> boundary (p, [] @ s)"
          using ctx by simp
        ultimately obtain t' where t': "[] @ s = u @ t'" "matches r p u t'"
          using transfer [OF s o mt] by blast
        then have "(lastc p u, t') \<in> set (ends r (p, s))"
          by (simp add: matches_def)
        then have ne: "ends r (p, s) \<noteq> []" by auto
        from fr show False
        proof
          assume "r = r'"
          with ne Nil show False by simp
        next
          assume "free r p s"
          with ne free_head show False by blast
        qed
      qed
      from head rest r show ?thesis by simp
    next
      case (Cons st rest)
      obtain p' s' where st: "st = (p', s')" by (cases st)
      from Cons st have mem: "(p', s') \<in> set (ends r' (p, s))" by simp
      from advances_shorter [OF a mem] have l: "length s' < length s" by simp
      from mem obtain h where h: "s = h @ s'" "p' = lastc p h" "matches r' p h s'"
        unfolding ends_matches by auto
      from closes_boundary [OF c h(3)] h(2) have b: "boundary (p', s')" by simp
      have "r = r' \<or> free r p' s'"
        using fr h(1,2) free_drop by blast
      moreover have "word_before (Some (last m)) = word_before p' \<or> boundary (p', s')"
        using b by simp
      ultimately have "free r (Some (last m)) (replace_all r' (\<lambda>h. m) p' s')"
        using l by (intro less.hyps) simp_all
      from free_marker [OF s this]
      have "free r q (m @ replace_all r' (\<lambda>h. m) p' s')" .
      with replace_all_hit [OF Cons [unfolded st] l, of "\<lambda>h. m"] show ?thesis by simp
    qed
  qed
qed

text \<open>
  After its own pass a pattern matches nowhere, and the passes of the other patterns leave
  it so.
\<close>

lemma inert_pattern: "inert c \<Longrightarrow> \<not> consumes (pattern cat) c"
  by (cases cat) (simp_all add: inert_def)

lemma plain_suits: "plain_marker m \<Longrightarrow> suits (pattern cat) m"
  by (simp add: plain_marker_def suits_def patterns_keyed patterns_open patterns_close
      inert_pattern list_all_iff)

lemma plain_no_backslash: "plain_marker m \<Longrightarrow> CHR 0x5C \<notin> set m"
  by (auto simp: plain_marker_def list_all_iff)

lemma pass_free_own:
  assumes "plain_marker m" and "enabled config cat"
  shows "free (pattern cat) None (replace_pass config (\<lambda>h. m) t cat)"
proof -
  have "free (pattern cat) None (replace_all (pattern cat) (\<lambda>h. m) None t)"
    by (rule replace_free [OF plain_suits [OF assms(1)] patterns_advance patterns_open
          patterns_close]) simp_all
  with assms(2) show ?thesis by (simp add: replace_pass_def)
qed

lemma pass_free_other:
  assumes "plain_marker m" and "free (pattern c) None t"
  shows "free (pattern c) None (replace_pass config (\<lambda>h. m) t cat)"
proof (cases "enabled config cat")
  case True
  have "free (pattern c) None (replace_all (pattern cat) (\<lambda>h. m) None t)"
    by (rule replace_free [OF plain_suits [OF assms(1)] patterns_advance patterns_open
          patterns_close]) (simp_all add: assms(2))
  with True show ?thesis by (simp add: replace_pass_def)
next
  case False
  with assms(2) show ?thesis by (simp add: replace_pass_def)
qed

lemma passes_free_other:
  "plain_marker m \<Longrightarrow> free (pattern c) None t \<Longrightarrow>
   free (pattern c) None (foldl (replace_pass config (\<lambda>h. m)) t cats)"
  by (induction cats arbitrary: t) (simp_all add: pass_free_other)

lemma passes_free_own:
  "plain_marker m \<Longrightarrow> cat \<in> set cats \<Longrightarrow> enabled config cat \<Longrightarrow>
   free (pattern cat) None (foldl (replace_pass config (\<lambda>h. m)) t cats)"
proof (induction cats arbitrary: t)
  case Nil
  then show ?case by simp
next
  case (Cons x xs)
  show ?case
  proof (cases "x = cat")
    case True
    from pass_free_own [OF Cons.prems(1,3)]
    have "free (pattern cat) None (replace_pass config (\<lambda>h. m) t cat)" .
    from passes_free_other [OF Cons.prems(1) this] True show ?thesis by simp
  next
    case False
    with Cons.prems(2) have "cat \<in> set xs" by simp
    from Cons.IH [OF Cons.prems(1) this Cons.prems(3)] show ?thesis by simp
  qed
qed

lemma passes_second_run:
  "(\<And>cat. cat \<in> set cats \<Longrightarrow> enabled config cat \<Longrightarrow> free (pattern cat) None out) \<Longrightarrow>
   foldl (replace_pass config f) out cats = out"
proof (induction cats)
  case Nil
  show ?case by simp
next
  case (Cons x xs)
  have "replace_pass config f out x = out"
  proof (cases "enabled config x")
    case True
    with Cons.prems [of x] have "free (pattern x) None out" by simp
    with True show ?thesis by (simp add: replace_pass_def replace_all_free)
  next
    case False
    then show ?thesis by (simp add: replace_pass_def)
  qed
  moreover have "foldl (replace_pass config f) out xs = out"
    by (rule Cons.IH) (simp add: Cons.prems)
  ultimately show ?case by simp
qed

lemma sanitize_twice:
  assumes "plain_marker (redact_char config)"
  shows "\<exists>out. sanitize_text text config = Inr out \<and> sanitize_text out config = Inr out"
proof -
  let ?f = "\<lambda>h::string. redact_char config"
  let ?cats = "[SSN, PHONE, EMAIL, CREDIT_CARD]"
  let ?out = "foldl (replace_pass config ?f) text ?cats"
  note b = plain_no_backslash [OF assms]
  have 1: "sanitize_text text config = Inr ?out"
    by (rule sanitize_text_plain [OF b])
  have "foldl (replace_pass config ?f) ?out ?cats = ?out"
    by (rule passes_second_run) (rule passes_free_own [OF assms])
  with sanitize_text_plain [OF b, of ?out] have 2: "sanitize_text ?out config = Inr ?out"
    by simp
  from 1 2 show ?thesis by blast
qed

text \<open>
  Claim C6, as amended. For every plain marker, every text and every choice of
  categories, \<open>sanitize_text\<close> returns an output, and \<open>sanitize_text\<close> on that output with
  the same configuration returns it unchanged.
\<close>

theorem sanitize_idempotent:
  "plain_marker (redact_char config) \<Longrightarrow>
   \<exists>out. sanitize_text text config = Inr out \<and> sanitize_text out config = Inr out"
  by (rule sanitize_twice)

theorem sanitize_idempotent_witness:
  "plain_marker (redact_char example_config)
   \<and> sanitize_text ''a@b.co@c.de'' example_config = Inr ''<REDACTED>@c.de''
   \<and> sanitize_text ''<REDACTED>@c.de'' example_config = Inr ''<REDACTED>@c.de''"
proof -
  have p: "plain_marker (redact_char example_config)"
    by code_simp
  have e: "sanitize_text ''a@b.co@c.de'' example_config = Inr ''<REDACTED>@c.de''"
    by code_simp
  from sanitize_idempotent [OF p, of "''a@b.co@c.de''"] e
  have "sanitize_text ''<REDACTED>@c.de'' example_config = Inr ''<REDACTED>@c.de''"
    by auto
  with p e show ?thesis by blast
qed

text \<open>
  Against claim C6 as stated: the marker \<open>REDACTED\<close> has the shape of no category
  (\<open>sanitize_text\<close> leaves it as it is), yet on \<open>a@b.co@c.de\<close> the first run returns
  \<open>REDACTED@c.de\<close>, which the second run replaces whole: the marker has become the local
  part of an address.
\<close>

theorem bare_marker_not_idempotent:
  "sanitize_text ''a@b.co@c.de'' (example_config\<lparr>redact_char := ''REDACTED''\<rparr>)
     = Inr ''REDACTED@c.de''
   \<and> sanitize_text ''REDACTED@c.de'' (example_config\<lparr>redact_char := ''REDACTED''\<rparr>)
     = Inr ''REDACTED''
   \<and> sanitize_text ''REDACTED'' (example_config\<lparr>redact_char := ''REDACTED''\<rparr>)
     = Inr ''REDACTED''"
  by code_simp

end
